theory Spec2Isabelle
  imports Complex_Main "HOL-Library.Log_Nat"
begin

section \<open>JavaScript numbers\<close>

text \<open>
  The sampler of \<^verbatim>\<open>lttbSample.ts\<close> computes with JavaScript numbers, the binary64
  numbers of IEEE-754. A number is modelled as a rational or one of the three special
  values. A comparison with \<open>NaN\<close> is false, \<open>Infinity - Infinity\<close> and \<open>0 * Infinity\<close> are
  \<open>NaN\<close>, and the finite result of a sum, difference, product or quotient is rounded to
  binary64. The two zeros are one value: the code never divides by zero and never
  inspects the sign of a zero.
\<close>

datatype jsnum = Fin rat | PInf | NInf | NaN

subsection \<open>Rounding to binary64\<close>

text \<open>Rounding to the nearest integer, a tie to the even one.\<close>

definition roundEven :: "rat \<Rightarrow> int" where
  "roundEven y =
     (let f = \<lfloor>y\<rfloor>;
          d = y - of_int f
      in if d < 1 / 2 then f else if 1 / 2 < d then f + 1 else if even f then f else f + 1)"

text \<open>The exponent \<open>e\<close> of a positive rational \<open>a\<close>: \<open>2^e \<le> a < 2^(e + 1)\<close>.\<close>

definition exponentOf :: "rat \<Rightarrow> int" where
  "exponentOf a =
     (let (p, q) = quotient_of a;
          d = bitlen p - bitlen q
      in if 2 powi d \<le> a then d else d - 1)"

text \<open>
  Rounding of a rational to a significand of 53 bits, to nearest and a tie to even, with
  the exponent not below \<open>-1022\<close> (gradual underflow). The result is the binary64 value
  unless its magnitude reaches \<open>2^1024\<close>.
\<close>

definition fl :: "rat \<Rightarrow> rat" where
  "fl x =
     (if x = 0 then 0
      else (let a = \<bar>x\<bar>;
                e = max (exponentOf a) (- 1022);
                u = 2 powi (e - 52);
                r = u * of_int (roundEven (a / u))
            in if 0 < x then r else - r))"

text \<open>
  The binary64 value of an exact result: a rounded magnitude of \<open>2^1024\<close> or more
  (an exponent above 1023) overflows to an infinity.
\<close>

definition round64 :: "rat \<Rightarrow> jsnum" where
  "round64 x =
     (let r = fl x
      in if 1024 \<le> exponentOf \<bar>r\<bar> then (if 0 < x then PInf else NInf) else Fin r)"

subsection \<open>Arithmetic and comparisons\<close>

fun jneg :: "jsnum \<Rightarrow> jsnum" where
  "jneg (Fin a) = Fin (- a)"
| "jneg PInf = NInf"
| "jneg NInf = PInf"
| "jneg NaN = NaN"

fun jadd :: "jsnum \<Rightarrow> jsnum \<Rightarrow> jsnum" where
  "jadd NaN _ = NaN"
| "jadd _ NaN = NaN"
| "jadd (Fin a) (Fin b) = round64 (a + b)"
| "jadd PInf NInf = NaN"
| "jadd NInf PInf = NaN"
| "jadd PInf _ = PInf"
| "jadd _ PInf = PInf"
| "jadd NInf _ = NInf"
| "jadd _ NInf = NInf"

definition jsub :: "jsnum \<Rightarrow> jsnum \<Rightarrow> jsnum" where
  "jsub a b = jadd a (jneg b)"

fun jmul :: "jsnum \<Rightarrow> jsnum \<Rightarrow> jsnum" where
  "jmul NaN _ = NaN"
| "jmul _ NaN = NaN"
| "jmul (Fin a) (Fin b) = round64 (a * b)"
| "jmul (Fin a) PInf = (if a = 0 then NaN else if 0 < a then PInf else NInf)"
| "jmul (Fin a) NInf = (if a = 0 then NaN else if 0 < a then NInf else PInf)"
| "jmul PInf (Fin b) = (if b = 0 then NaN else if 0 < b then PInf else NInf)"
| "jmul NInf (Fin b) = (if b = 0 then NaN else if 0 < b then NInf else PInf)"
| "jmul PInf PInf = PInf"
| "jmul NInf NInf = PInf"
| "jmul PInf NInf = NInf"
| "jmul NInf PInf = NInf"

text \<open>
  Division by a zero gives an infinity whose sign depends on the sign of the zero; the
  model takes the zero as positive. The sampler divides by \<open>avgCount\<close> only when it is
  positive and by \<open>targetPoints - 2\<close> only after \<open>targetPoints === 2\<close> has returned.
\<close>

fun jdiv :: "jsnum \<Rightarrow> jsnum \<Rightarrow> jsnum" where
  "jdiv NaN _ = NaN"
| "jdiv _ NaN = NaN"
| "jdiv (Fin a) (Fin b) =
     (if b = 0 then (if a = 0 then NaN else if 0 < a then PInf else NInf) else round64 (a / b))"
| "jdiv (Fin a) PInf = Fin 0"
| "jdiv (Fin a) NInf = Fin 0"
| "jdiv PInf (Fin b) = (if 0 \<le> b then PInf else NInf)"
| "jdiv NInf (Fin b) = (if 0 \<le> b then NInf else PInf)"
| "jdiv PInf PInf = NaN"
| "jdiv PInf NInf = NaN"
| "jdiv NInf PInf = NaN"
| "jdiv NInf NInf = NaN"

fun jlt :: "jsnum \<Rightarrow> jsnum \<Rightarrow> bool" where
  "jlt NaN _ = False"
| "jlt _ NaN = False"
| "jlt (Fin a) (Fin b) = (a < b)"
| "jlt _ NInf = False"
| "jlt NInf _ = True"
| "jlt PInf _ = False"
| "jlt _ PInf = True"

definition jgt :: "jsnum \<Rightarrow> jsnum \<Rightarrow> bool" where
  "jgt a b = jlt b a"

fun jle :: "jsnum \<Rightarrow> jsnum \<Rightarrow> bool" where
  "jle NaN _ = False"
| "jle _ NaN = False"
| "jle (Fin a) (Fin b) = (a \<le> b)"
| "jle NInf _ = True"
| "jle _ PInf = True"
| "jle _ NInf = False"
| "jle PInf _ = False"

definition jge :: "jsnum \<Rightarrow> jsnum \<Rightarrow> bool" where
  "jge a b = jle b a"

text \<open>\<^verbatim>\<open>Math.floor\<close>.\<close>

fun jfloor :: "jsnum \<Rightarrow> jsnum" where
  "jfloor (Fin a) = Fin (of_int \<lfloor>a\<rfloor>)"
| "jfloor PInf = PInf"
| "jfloor NInf = NInf"
| "jfloor NaN = NaN"

definition isNaN :: "jsnum \<Rightarrow> bool" where
  "isNaN a = (a = NaN)"

fun isFinite :: "jsnum \<Rightarrow> bool" where
  "isFinite (Fin a) = True"
| "isFinite _ = False"

section \<open>The input encodings\<close>

text \<open>
  Modelled from the spec: the type \<^verbatim>\<open>DataPoint\<close> of \<^verbatim>\<open>config/types\<close>, which is not among
  the sources. The spec describes an element of a point array as "either a 2-element
  positional pair or a record exposing named x/y fields"; \<^verbatim>\<open>isTupleDataPoint\<close> tells
  them apart with \<^verbatim>\<open>Array.isArray\<close>.
\<close>

datatype DataPoint = Tuple jsnum jsnum | XY jsnum jsnum

fun isTupleDataPoint :: "DataPoint \<Rightarrow> bool" where
  "isTupleDataPoint (Tuple x y) = True"
| "isTupleDataPoint (XY x y) = False"

text \<open>
  The element reads \<^verbatim>\<open>p[i]\<close> and the field reads \<^verbatim>\<open>p.x\<close>, \<^verbatim>\<open>p.y\<close>. A read that the
  element does not have is \<^verbatim>\<open>undefined\<close>, which the arithmetic turns into \<open>NaN\<close>.
\<close>

fun tupleAt :: "DataPoint \<Rightarrow> nat \<Rightarrow> jsnum" where
  "tupleAt (Tuple x y) i = (if i = 0 then x else if i = 1 then y else NaN)"
| "tupleAt (XY x y) i = NaN"

fun fieldX :: "DataPoint \<Rightarrow> jsnum" where
  "fieldX (XY x y) = x"
| "fieldX (Tuple x y) = NaN"

fun fieldY :: "DataPoint \<Rightarrow> jsnum" where
  "fieldY (XY x y) = y"
| "fieldY (Tuple x y) = NaN"

text \<open>The reads \<^verbatim>\<open>isTupleDataPoint(p) ? p[0] : p.x\<close> and \<^verbatim>\<open>isTupleDataPoint(p) ? p[1] : p.y\<close>.\<close>

definition pointX :: "DataPoint \<Rightarrow> jsnum" where
  "pointX p = (if isTupleDataPoint p then tupleAt p 0 else fieldX p)"

definition pointY :: "DataPoint \<Rightarrow> jsnum" where
  "pointY p = (if isTupleDataPoint p then tupleAt p 1 else fieldY p)"

text \<open>
  An element read of a \<^verbatim>\<open>Float32Array\<close> out of range is \<^verbatim>\<open>undefined\<close>, which every
  arithmetic operation, comparison and store into a \<^verbatim>\<open>Float32Array\<close> turns into \<open>NaN\<close>.
\<close>

definition f32get :: "jsnum list \<Rightarrow> int \<Rightarrow> jsnum" where
  "f32get data i = (if 0 \<le> i \<and> i < int (length data) then data ! nat i else NaN)"

text \<open>
  An element read of a point array out of range is \<^verbatim>\<open>undefined\<close> as well, and reading
  a coordinate of \<^verbatim>\<open>undefined\<close> throws a \<^verbatim>\<open>TypeError\<close>. Storing \<^verbatim>\<open>undefined\<close> into the
  result array throws nothing, but the result is then no array of points: the model
  reports it as \<open>UndefinedElement\<close>, so that its absence is a theorem.
\<close>

datatype failure = TypeError | UndefinedElement

definition getPoint :: "DataPoint list \<Rightarrow> int \<Rightarrow> failure + DataPoint" where
  "getPoint data i =
     (if 0 \<le> i \<and> i < int (length data) then Inr (data ! nat i) else Inl TypeError)"

section \<open>The bucket plan and the triangle area\<close>

text \<open>
  Both index functions compute the ranges and the area with the same text
  (lines 35-45 and 116-126, lines 73-74 and 159-160). \<open>bucket\<close> is the loop counter and
  \<open>bucketSize\<close> the quotient \<^verbatim>\<open>(n - 2) / (targetPoints - 2)\<close>.

  The lengths, counters and indices are integers below \<open>2^53\<close>, on which the sums and
  differences of binary64 are exact: they are modelled as integers. The quotient
  \<open>bucketSize\<close> and the products \<^verbatim>\<open>bucketSize * bucket\<close> are rounded; for an array and
  the integral target count that \<^verbatim>\<open>lttbSample\<close> passes they are 0 or lie between 1 and
  \<open>2^106\<close>, far from overflow, so they are rounded with \<open>fl\<close>.
\<close>

text \<open>\<^verbatim>\<open>(n - 2) / (targetPoints - 2)\<close>.\<close>

definition bucketSizeOf :: "nat \<Rightarrow> rat \<Rightarrow> rat" where
  "bucketSizeOf n targetPoints = fl ((of_nat n - 2) / (targetPoints - 2))"

text \<open>\<^verbatim>\<open>Math.floor(bucketSize * k)\<close>.\<close>

definition bucketFloor :: "rat \<Rightarrow> nat \<Rightarrow> int" where
  "bucketFloor bucketSize k = \<lfloor>fl (bucketSize * of_nat k)\<rfloor>"

definition currentRange :: "rat \<Rightarrow> int \<Rightarrow> nat \<Rightarrow> int \<times> int" where
  "currentRange bucketSize lastIndex bucket =
     (let rangeStart = bucketFloor bucketSize bucket + 1;
          rangeEndExclusive = min (bucketFloor bucketSize (bucket + 1) + 1) lastIndex
      in if rangeStart \<ge> rangeEndExclusive then
           (let rangeStart' = min rangeStart (lastIndex - 1)
            in (rangeStart', min (rangeStart' + 1) lastIndex))
         else (rangeStart, rangeEndExclusive))"

definition nextRange :: "rat \<Rightarrow> int \<Rightarrow> nat \<Rightarrow> int \<times> int" where
  "nextRange bucketSize lastIndex bucket =
     (bucketFloor bucketSize (bucket + 1) + 1,
      min (bucketFloor bucketSize (bucket + 2) + 1) lastIndex)"

definition area2 :: "jsnum \<Rightarrow> jsnum \<Rightarrow> jsnum \<Rightarrow> jsnum \<Rightarrow> jsnum \<Rightarrow> jsnum \<Rightarrow> jsnum" where
  "area2 ax ay avgX avgY bx by =
     jsub (jmul (jsub ax avgX) (jsub by ay)) (jmul (jsub ax bx) (jsub avgY ay))"

definition absArea2 :: "jsnum \<Rightarrow> jsnum \<Rightarrow> jsnum \<Rightarrow> jsnum \<Rightarrow> jsnum \<Rightarrow> jsnum \<Rightarrow> jsnum" where
  "absArea2 ax ay avgX avgY bx by =
     (let a = area2 ax ay avgX avgY bx by in if jlt a (Fin 0) then jneg a else a)"

text \<open>
  A store \<^verbatim>\<open>indices[k] = v\<close> into an \<^verbatim>\<open>Int32Array\<close> is ignored unless \<open>k\<close> is an integer
  within the array. Indices stay below \<open>2^31\<close>, so the stored value is the value.
\<close>

definition storeAt :: "int list \<Rightarrow> rat \<Rightarrow> int \<Rightarrow> int list" where
  "storeAt indices k v =
     (if of_int \<lfloor>k\<rfloor> = k \<and> 0 \<le> k \<and> \<lfloor>k\<rfloor> < int (length indices)
      then indices[nat \<lfloor>k\<rfloor> := v] else indices)"

section \<open>lttbIndicesForInterleavedXY\<close>

text \<open>The loop of lines 54-58, from \<open>i\<close> to \<open>e\<close>, on the state \<open>(sumX, sumY, avgCount)\<close>.\<close>

function avgLoopXY :: "jsnum list \<Rightarrow> int \<Rightarrow> int \<Rightarrow> jsnum \<times> jsnum \<times> nat \<Rightarrow> jsnum \<times> jsnum \<times> nat" where
  "avgLoopXY data i e (sumX, sumY, avgCount) =
     (if i < e
      then avgLoopXY data (i + 1) e
             (jadd sumX (f32get data (i * 2 + 0)), jadd sumY (f32get data (i * 2 + 1)), avgCount + 1)
      else (sumX, sumY, avgCount))"
  by pat_completeness auto
termination
  by (relation "measure (\<lambda>(data, i, e, s). nat (e - i))") auto

text \<open>Lines 43-63: the average point of the next bucket.\<close>

definition nextAverageXY :: "jsnum list \<Rightarrow> rat \<Rightarrow> int \<Rightarrow> jsnum \<Rightarrow> jsnum \<Rightarrow> nat \<Rightarrow> jsnum \<times> jsnum" where
  "nextAverageXY data bucketSize lastIndex lastX lastY bucket =
     (let (nextRangeStart, nextRangeEndExclusive) = nextRange bucketSize lastIndex bucket
      in if nextRangeStart < nextRangeEndExclusive then
           (let (sumX, sumY, avgCount) =
                  avgLoopXY data nextRangeStart nextRangeEndExclusive (Fin 0, Fin 0, 0)
            in if avgCount > 0
               then (jdiv sumX (Fin (of_nat avgCount)), jdiv sumY (Fin (of_nat avgCount)))
               else (lastX, lastY))
         else (lastX, lastY))"

text \<open>The loop of lines 70-79, on the state \<open>(maxArea, maxIndex)\<close>.\<close>

function maxLoopXY ::
  "jsnum list \<Rightarrow> jsnum \<Rightarrow> jsnum \<Rightarrow> jsnum \<Rightarrow> jsnum \<Rightarrow> int \<Rightarrow> int \<Rightarrow> jsnum \<times> int \<Rightarrow> jsnum \<times> int" where
  "maxLoopXY data ax ay avgX avgY i e (maxArea, maxIndex) =
     (if i < e
      then (let bx = f32get data (i * 2 + 0);
                by = f32get data (i * 2 + 1);
                absArea = absArea2 ax ay avgX avgY bx by
            in maxLoopXY data ax ay avgX avgY (i + 1) e
                 (if jgt absArea maxArea then (absArea, i) else (maxArea, maxIndex)))
      else (maxArea, maxIndex))"
  by pat_completeness auto
termination
  by (relation "measure (\<lambda>(data, ax, ay, avgX, avgY, i, e, s). nat (e - i))") auto

text \<open>Lines 35-82: one pass of the bucket loop, on the state \<open>(a, out, indices)\<close>.\<close>

definition bucketStepXY ::
  "jsnum list \<Rightarrow> rat \<Rightarrow> int \<Rightarrow> jsnum \<Rightarrow> jsnum \<Rightarrow> nat \<Rightarrow> int \<times> nat \<times> int list \<Rightarrow> int \<times> nat \<times> int list" where
  "bucketStepXY data bucketSize lastIndex lastX lastY bucket s =
     (case s of (a, out, indices) \<Rightarrow>
       (let (rangeStart, rangeEndExclusive) = currentRange bucketSize lastIndex bucket;
            (avgX, avgY) = nextAverageXY data bucketSize lastIndex lastX lastY bucket;
            ax = f32get data (a * 2 + 0);
            ay = f32get data (a * 2 + 1);
            (maxArea, maxIndex) =
               maxLoopXY data ax ay avgX avgY rangeStart rangeEndExclusive (Fin (- 1), rangeStart)
        in (maxIndex, out + 1, indices[out := maxIndex])))"

text \<open>The loop of line 33; \<open>targetPoints\<close> is finite whenever the loop is reached.\<close>

function bucketLoopXY ::
  "jsnum list \<Rightarrow> rat \<Rightarrow> rat \<Rightarrow> int \<Rightarrow> jsnum \<Rightarrow> jsnum \<Rightarrow> nat \<Rightarrow> int \<times> nat \<times> int list \<Rightarrow> int list" where
  "bucketLoopXY data targetPoints bucketSize lastIndex lastX lastY bucket s =
     (if of_nat bucket < targetPoints - 2
      then bucketLoopXY data targetPoints bucketSize lastIndex lastX lastY (bucket + 1)
             (bucketStepXY data bucketSize lastIndex lastX lastY bucket s)
      else snd (snd s))"
  by pat_completeness auto
termination
proof (relation "measure (\<lambda>(data, targetPoints, bucketSize, lastIndex, lastX, lastY, bucket, s).
                   nat \<lceil>targetPoints - 2\<rceil> - bucket)", goal_cases)
  case 1
  show ?case by simp
next
  case (2 data targetPoints bucketSize lastIndex lastX lastY bucket s)
  then have "of_int (int bucket) < targetPoints - 2" by simp
  then have "int bucket < \<lceil>targetPoints - 2\<rceil>" by (simp only: less_ceiling_iff)
  then show ?case by simp
qed

text \<open>
  Lines 8-86. After the four early returns \<open>targetPoints\<close> is a finite number or \<open>NaN\<close>.
  For \<open>NaN\<close> the array \<^verbatim>\<open>new Int32Array(NaN)\<close> has length 0, both stores into it are ignored
  and the loop condition \<^verbatim>\<open>bucket < NaN\<close> is false: the empty array is returned. For a
  finite \<open>targetPoints\<close> the array has length \<open>\<lfloor>targetPoints\<rfloor>\<close>.
\<close>

definition lttbIndicesForInterleavedXY :: "jsnum list \<Rightarrow> jsnum \<Rightarrow> int list" where
  "lttbIndicesForInterleavedXY data targetPoints =
     (let n = length data div 2;
          lastIndex = int n - 1
      in if jle targetPoints (Fin 0) \<or> n = 0 then []
         else if targetPoints = Fin 1 then [0]
         else if targetPoints = Fin 2 then (if n \<ge> 2 then [0, lastIndex] else [0])
         else if jle (Fin (of_nat n)) targetPoints then map int [0..<n]
         else (case targetPoints of
                 Fin t \<Rightarrow>
                   (let indices = replicate (nat \<lfloor>t\<rfloor>) 0;
                        indices = indices[0 := 0];
                        indices = storeAt indices (t - 1) lastIndex;
                        bucketSize = bucketSizeOf n t;
                        lastX = f32get data (lastIndex * 2 + 0);
                        lastY = f32get data (lastIndex * 2 + 1)
                    in bucketLoopXY data t bucketSize lastIndex lastX lastY 0 (0, 1, indices))
               | _ \<Rightarrow> []))"

section \<open>lttbIndicesForDataPoints\<close>

text \<open>The loop of lines 135-142; a read of a missing element ends it with the error.\<close>

function avgLoopDP ::
  "DataPoint list \<Rightarrow> int \<Rightarrow> int \<Rightarrow> jsnum \<times> jsnum \<times> nat \<Rightarrow> failure + (jsnum \<times> jsnum \<times> nat)" where
  "avgLoopDP data i e (sumX, sumY, avgCount) =
     (if i < e
      then (case getPoint data i of
              Inl err \<Rightarrow> Inl err
            | Inr p \<Rightarrow>
                (let x = pointX p;
                     y = pointY p
                 in avgLoopDP data (i + 1) e (jadd sumX x, jadd sumY y, avgCount + 1)))
      else Inr (sumX, sumY, avgCount))"
  by pat_completeness auto
termination
  by (relation "measure (\<lambda>(data, i, e, s). nat (e - i))") auto

text \<open>Lines 124-147.\<close>

definition nextAverageDP ::
  "DataPoint list \<Rightarrow> rat \<Rightarrow> int \<Rightarrow> jsnum \<Rightarrow> jsnum \<Rightarrow> nat \<Rightarrow> failure + (jsnum \<times> jsnum)" where
  "nextAverageDP data bucketSize lastIndex lastX lastY bucket =
     (let (nextRangeStart, nextRangeEndExclusive) = nextRange bucketSize lastIndex bucket
      in if nextRangeStart < nextRangeEndExclusive then
           (case avgLoopDP data nextRangeStart nextRangeEndExclusive (Fin 0, Fin 0, 0) of
              Inl err \<Rightarrow> Inl err
            | Inr (sumX, sumY, avgCount) \<Rightarrow>
                if avgCount > 0
                then Inr (jdiv sumX (Fin (of_nat avgCount)), jdiv sumY (Fin (of_nat avgCount)))
                else Inr (lastX, lastY))
         else Inr (lastX, lastY))"

text \<open>The loop of lines 155-165.\<close>

function maxLoopDP ::
  "DataPoint list \<Rightarrow> jsnum \<Rightarrow> jsnum \<Rightarrow> jsnum \<Rightarrow> jsnum \<Rightarrow> int \<Rightarrow> int \<Rightarrow> jsnum \<times> int
     \<Rightarrow> failure + (jsnum \<times> int)" where
  "maxLoopDP data ax ay avgX avgY i e (maxArea, maxIndex) =
     (if i < e
      then (case getPoint data i of
              Inl err \<Rightarrow> Inl err
            | Inr pb \<Rightarrow>
                (let bx = pointX pb;
                     by = pointY pb;
                     absArea = absArea2 ax ay avgX avgY bx by
                 in maxLoopDP data ax ay avgX avgY (i + 1) e
                      (if jgt absArea maxArea then (absArea, i) else (maxArea, maxIndex))))
      else Inr (maxArea, maxIndex))"
  by pat_completeness auto
termination
  by (relation "measure (\<lambda>(data, ax, ay, avgX, avgY, i, e, s). nat (e - i))") auto

text \<open>Lines 116-168: one pass of the bucket loop.\<close>

definition bucketStepDP ::
  "DataPoint list \<Rightarrow> rat \<Rightarrow> int \<Rightarrow> jsnum \<Rightarrow> jsnum \<Rightarrow> nat \<Rightarrow> int \<times> nat \<times> int list
     \<Rightarrow> failure + (int \<times> nat \<times> int list)" where
  "bucketStepDP data bucketSize lastIndex lastX lastY bucket s =
     (case s of (a, out, indices) \<Rightarrow>
       (let (rangeStart, rangeEndExclusive) = currentRange bucketSize lastIndex bucket
        in case nextAverageDP data bucketSize lastIndex lastX lastY bucket of
             Inl err \<Rightarrow> Inl err
           | Inr (avgX, avgY) \<Rightarrow>
               (case getPoint data a of
                  Inl err \<Rightarrow> Inl err
                | Inr pa \<Rightarrow>
                    (let ax = pointX pa;
                         ay = pointY pa
                     in case maxLoopDP data ax ay avgX avgY rangeStart rangeEndExclusive
                               (Fin (- 1), rangeStart) of
                          Inl err \<Rightarrow> Inl err
                        | Inr (maxArea, maxIndex) \<Rightarrow>
                            Inr (maxIndex, out + 1, indices[out := maxIndex])))))"

text \<open>The loop of line 114.\<close>

function bucketLoopDP ::
  "DataPoint list \<Rightarrow> rat \<Rightarrow> rat \<Rightarrow> int \<Rightarrow> jsnum \<Rightarrow> jsnum \<Rightarrow> nat \<Rightarrow> int \<times> nat \<times> int list
     \<Rightarrow> failure + int list" where
  "bucketLoopDP data targetPoints bucketSize lastIndex lastX lastY bucket s =
     (if of_nat bucket < targetPoints - 2
      then (case bucketStepDP data bucketSize lastIndex lastX lastY bucket s of
              Inl err \<Rightarrow> Inl err
            | Inr s' \<Rightarrow>
                bucketLoopDP data targetPoints bucketSize lastIndex lastX lastY (bucket + 1) s')
      else Inr (snd (snd s)))"
  by pat_completeness auto
termination
proof (relation "measure (\<lambda>(data, targetPoints, bucketSize, lastIndex, lastX, lastY, bucket, s).
                   nat \<lceil>targetPoints - 2\<rceil> - bucket)", goal_cases)
  case 1
  show ?case by simp
next
  case (2 data targetPoints bucketSize lastIndex lastX lastY bucket s s')
  then have "of_int (int bucket) < targetPoints - 2" by simp
  then have "int bucket < \<lceil>targetPoints - 2\<rceil>" by (simp only: less_ceiling_iff)
  then show ?case by simp
qed

text \<open>Lines 88-172; the \<open>NaN\<close> case is as in the interleaved function.\<close>

definition lttbIndicesForDataPoints :: "DataPoint list \<Rightarrow> jsnum \<Rightarrow> failure + int list" where
  "lttbIndicesForDataPoints data targetPoints =
     (let n = length data;
          lastIndex = int n - 1
      in if jle targetPoints (Fin 0) \<or> n = 0 then Inr []
         else if targetPoints = Fin 1 then Inr [0]
         else if targetPoints = Fin 2 then (if n \<ge> 2 then Inr [0, lastIndex] else Inr [0])
         else if jle (Fin (of_nat n)) targetPoints then Inr (map int [0..<n])
         else (case targetPoints of
                 Fin t \<Rightarrow>
                   (let indices = replicate (nat \<lfloor>t\<rfloor>) 0;
                        indices = indices[0 := 0];
                        indices = storeAt indices (t - 1) lastIndex;
                        bucketSize = bucketSizeOf n t
                    in case getPoint data lastIndex of
                         Inl err \<Rightarrow> Inl err
                       | Inr pLast \<Rightarrow>
                           (let lastX = pointX pLast;
                                lastY = pointY pLast
                            in bucketLoopDP data t bucketSize lastIndex lastX lastY 0
                                 (0, 1, indices)))
               | _ \<Rightarrow> Inr []))"

section \<open>lttbSample\<close>

datatype SampleData = Float32Array "jsnum list" | PointArray "DataPoint list"

text \<open>The loop of lines 192-196 over the indices, filling the new \<^verbatim>\<open>Float32Array\<close>.\<close>

fun gatherXY :: "jsnum list \<Rightarrow> int list \<Rightarrow> jsnum list" where
  "gatherXY data [] = []"
| "gatherXY data (idx # rest) =
     f32get data (idx * 2 + 0) # f32get data (idx * 2 + 1) # gatherXY data rest"

text \<open>The loop of lines 208-210, filling the new array with the elements themselves.\<close>

fun gatherPoints :: "DataPoint list \<Rightarrow> int list \<Rightarrow> failure + DataPoint list" where
  "gatherPoints data [] = Inr []"
| "gatherPoints data (idx # rest) =
     (if 0 \<le> idx \<and> idx < int (length data)
      then (case gatherPoints data rest of
              Inl err \<Rightarrow> Inl err
            | Inr out \<Rightarrow> Inr (data ! nat idx # out))
      else Inl UndefinedElement)"

text \<open>
  Lines 177-212. Returning \<open>data\<close> itself is the passthrough without a copy. The
  length of a \<^verbatim>\<open>Float32Array\<close> is below \<open>2^32\<close>, so \<^verbatim>\<open>data.length >>> 1\<close> is the quotient by 2.
\<close>

definition lttbSample :: "SampleData \<Rightarrow> jsnum \<Rightarrow> failure + SampleData" where
  "lttbSample data targetPoints =
     (let threshold = jfloor targetPoints
      in case data of
           Float32Array d \<Rightarrow>
             (let n = length d div 2
              in if jle threshold (Fin 0) \<or> n = 0 then Inr (Float32Array [])
                 else if jle (Fin (of_nat n)) threshold then Inr data
                 else (let indices = lttbIndicesForInterleavedXY d threshold
                       in Inr (Float32Array (gatherXY d indices))))
         | PointArray ps \<Rightarrow>
             (let n = length ps
              in if jle threshold (Fin 0) \<or> n = 0 then Inr (PointArray [])
                 else if jle (Fin (of_nat n)) threshold then Inr data
                 else (case lttbIndicesForDataPoints ps threshold of
                         Inl err \<Rightarrow> Inl err
                       | Inr indices \<Rightarrow>
                           (case gatherPoints ps indices of
                              Inl err \<Rightarrow> Inl err
                            | Inr out \<Rightarrow> Inr (PointArray out)))))"

text \<open>
  The points of a sequence in either encoding, as pairs \<open>(x, y)\<close>: point \<open>i\<close> of a buffer
  occupies the slots \<open>2i\<close> and \<open>2i + 1\<close>, and a trailing odd slot holds no point.
\<close>

fun slotPairs :: "jsnum list \<Rightarrow> (jsnum \<times> jsnum) list" where
  "slotPairs (x # y # rest) = (x, y) # slotPairs rest"
| "slotPairs _ = []"

fun pointsOf :: "SampleData \<Rightarrow> (jsnum \<times> jsnum) list" where
  "pointsOf (Float32Array d) = slotPairs d"
| "pointsOf (PointArray ps) = map (\<lambda>p. (pointX p, pointY p)) ps"

section \<open>Notions used to state the properties\<close>

text \<open>The absolute value of a number, as the spec writes \<open>|area2|\<close>.\<close>

fun jabs :: "jsnum \<Rightarrow> jsnum" where
  "jabs (Fin a) = Fin \<bar>a\<bar>"
| "jabs PInf = PInf"
| "jabs NInf = PInf"
| "jabs NaN = NaN"

text \<open>The coordinates of point \<open>i\<close> of an interleaved buffer, as the loops read them.\<close>

definition xAt :: "jsnum list \<Rightarrow> int \<Rightarrow> jsnum" where
  "xAt data i = f32get data (i * 2 + 0)"

definition yAt :: "jsnum list \<Rightarrow> int \<Rightarrow> jsnum" where
  "yAt data i = f32get data (i * 2 + 1)"

text \<open>
  The index that one pass of the bucket loop selects from the anchor \<open>a\<close>: the first
  component of the state after the pass.
\<close>

definition selectedXY :: "jsnum list \<Rightarrow> rat \<Rightarrow> int \<Rightarrow> jsnum \<Rightarrow> jsnum \<Rightarrow> nat \<Rightarrow> int \<Rightarrow> int" where
  "selectedXY data bucketSize lastIndex lastX lastY bucket a =
     fst (bucketStepXY data bucketSize lastIndex lastX lastY bucket (a, 0, []))"

text \<open>
  The quantity \<open>|area2|\<close> of the spec for the candidate \<open>j\<close> of a bucket, with the anchor
  \<open>a\<close> and the average point that the pass computes for the bucket:
  \<open>area2 = (ax - avgX) * (by - ay) - (ax - bx) * (avgY - ay)\<close>.
\<close>

definition bucketArea :: "jsnum list \<Rightarrow> rat \<Rightarrow> int \<Rightarrow> nat \<Rightarrow> int \<Rightarrow> int \<Rightarrow> jsnum" where
  "bucketArea data bucketSize lastIndex bucket a j =
     (let (avgX, avgY) =
            nextAverageXY data bucketSize lastIndex (xAt data lastIndex) (yAt data lastIndex) bucket;
          ax = xAt data a;
          ay = yAt data a;
          bx = xAt data j;
          by = yAt data j
      in jabs (jsub (jmul (jsub ax avgX) (jsub by ay)) (jmul (jsub ax bx) (jsub avgY ay))))"

text \<open>The interleaved buffer that holds the points of a point array.\<close>

fun interleave :: "DataPoint list \<Rightarrow> jsnum list" where
  "interleave [] = []"
| "interleave (p # ps) = pointX p # pointY p # interleave ps"

fun bufferOf :: "SampleData \<Rightarrow> jsnum list" where
  "bufferOf (Float32Array d) = d"
| "bufferOf (PointArray ps) = interleave ps"

text \<open>A buffer and a point array hold the same points.\<close>

definition samePoints :: "jsnum list \<Rightarrow> DataPoint list \<Rightarrow> bool" where
  "samePoints d ps = (slotPairs d = map (\<lambda>p. (pointX p, pointY p)) ps)"

text \<open>
  The arithmetic mean of a list of numbers in the arithmetic of the program: the sum
  from the left, starting at 0, divided by the count.
\<close>

definition jmean :: "jsnum list \<Rightarrow> jsnum" where
  "jmean vs = jdiv (foldl jadd (Fin 0) vs) (Fin (of_nat (length vs)))"

text \<open>
  The lookahead point of bucket \<open>b\<close> as the spec states it, for the integral target count
  \<open>k\<close> and the \<open>N\<close> points of the buffer: the mean of the coordinates over the indices
  from \<open>\<lfloor>bucketSize * (b + 1)\<rfloor> + 1\<close> up to, not including,
  \<open>min(\<lfloor>bucketSize * (b + 2)\<rfloor> + 1, N - 1)\<close>, and the point \<open>N - 1\<close> when there is no such
  index. The quotient \<open>bucketSize = (N - 2) / (k - 2)\<close> and the products are numbers of
  the program, that is, rounded to binary64.
\<close>

definition lookaheadPoint :: "jsnum list \<Rightarrow> int \<Rightarrow> nat \<Rightarrow> jsnum \<times> jsnum" where
  "lookaheadPoint data k b =
     (let N = int (length data div 2);
          bucketSize = fl ((of_int N - 2) / (of_int k - 2));
          s = \<lfloor>fl (bucketSize * of_nat (b + 1))\<rfloor> + 1;
          e = min (\<lfloor>fl (bucketSize * of_nat (b + 2))\<rfloor> + 1) (N - 1)
      in if s < e
         then (jmean (map (xAt data) [s..e - 1]), jmean (map (yAt data) [s..e - 1]))
         else (xAt data (N - 1), yAt data (N - 1)))"



text \<open>
  Five points whose middle three have the ordinates \<open>NaN\<close>, \<open>Infinity\<close>, \<open>NaN\<close>, as an
  interleaved buffer.
\<close>

definition nonFiniteBuffer :: "jsnum list" where
  "nonFiniteBuffer = [Fin 0, Fin 0, Fin 1, NaN, Fin 2, PInf, Fin 3, NaN, Fin 4, Fin 0]"

text \<open>Five points whose middle three have the ordinate \<open>NaN\<close>.\<close>

definition allNaNBuffer :: "jsnum list" where
  "allNaNBuffer = [Fin 0, Fin 0, Fin 1, NaN, Fin 2, NaN, Fin 3, NaN, Fin 4, Fin 0]"

text \<open>Ten points with the abscissas 0 to 9, as an interleaved buffer and as a point array.\<close>

definition tenBuffer :: "jsnum list" where
  "tenBuffer = [Fin 0, Fin 0, Fin 1, Fin 5, Fin 2, Fin 1, Fin 3, Fin 7, Fin 4, Fin 2,
                Fin 5, Fin 0, Fin 6, Fin 3, Fin 7, Fin 9, Fin 8, Fin 1, Fin 9, Fin 0]"

definition tenPoints :: "DataPoint list" where
  "tenPoints = [Tuple (Fin 0) (Fin 0), XY (Fin 1) (Fin 5), Tuple (Fin 2) (Fin 1), XY (Fin 3) (Fin 7),
                Tuple (Fin 4) (Fin 2), XY (Fin 5) (Fin 0), Tuple (Fin 6) (Fin 3), XY (Fin 7) (Fin 9),
                Tuple (Fin 8) (Fin 1), XY (Fin 9) (Fin 0)]"

text \<open>Seventeen points with the abscissas 0 to 16, as an interleaved buffer.\<close>

definition seventeenBuffer :: "jsnum list" where
  "seventeenBuffer = [Fin 0, Fin 0, Fin 1, Fin 2, Fin 2, Fin 1, Fin 3, Fin 3, Fin 4, Fin 0,
                      Fin 5, Fin 4, Fin 6, Fin 1, Fin 7, Fin 2, Fin 8, Fin 5, Fin 9, Fin 0,
                      Fin 10, Fin 3, Fin 11, Fin 1, Fin 12, Fin 4, Fin 13, Fin 2, Fin 14, Fin 0,
                      Fin 15, Fin 3, Fin 16, Fin 1]"

declare avgLoopXY.simps [simp del] maxLoopXY.simps [simp del] bucketLoopXY.simps [simp del]
declare avgLoopDP.simps [simp del] maxLoopDP.simps [simp del] bucketLoopDP.simps [simp del]

section \<open>Facts about rounding\<close>

lemma roundEven_nonneg: "0 \<le> y \<Longrightarrow> 0 \<le> roundEven y"
proof -
  assume "0 \<le> y"
  then have "0 \<le> \<lfloor>y\<rfloor>" by simp
  then show ?thesis by (simp add: roundEven_def Let_def)
qed

lemma powi_two_pos: "0 < (2::rat) powi e"
  by simp

lemma fl_nonneg: "0 \<le> x \<Longrightarrow> 0 \<le> fl x"
proof -
  assume x: "0 \<le> x"
  show ?thesis
  proof (cases "x = 0")
    case True
    then show ?thesis by (simp add: fl_def)
  next
    case False
    with x have pos: "0 < x" by simp
    define u where "u = (2::rat) powi (max (exponentOf \<bar>x\<bar>) (- 1022) - 52)"
    have u: "0 < u" unfolding u_def by simp
    have "0 \<le> \<bar>x\<bar> / u" using u by simp
    then have "0 \<le> roundEven (\<bar>x\<bar> / u)" by (rule roundEven_nonneg)
    then have "0 \<le> u * of_int (roundEven (\<bar>x\<bar> / u))" using u by simp
    then show ?thesis using pos False by (simp add: fl_def Let_def u_def)
  qed
qed

lemma fl_zero [simp]: "fl 0 = 0"
  by (simp add: fl_def)

lemma bucketFloor_nonneg: "0 \<le> bucketSize \<Longrightarrow> 0 \<le> bucketFloor bucketSize k"
proof -
  assume "0 \<le> bucketSize"
  then have "0 \<le> bucketSize * of_nat k" by simp
  then have "0 \<le> fl (bucketSize * of_nat k)" by (rule fl_nonneg)
  then show ?thesis by (simp add: bucketFloor_def)
qed

subsection \<open>The exponent of a positive rational\<close>

lemma powi_less_imp_less: "(2::rat) powi m < 2 powi n \<Longrightarrow> m < n"
proof (rule ccontr)
  assume lt: "(2::rat) powi m < 2 powi n" and "\<not> m < n"
  then have "n \<le> m" by simp
  then have "(2::rat) powi n \<le> 2 powi m" by (rule power_int_increasing) simp
  with lt show False by simp
qed

lemma bitlen_bounds_rat:
  assumes "0 < p"
  shows "(2::rat) powi (bitlen p - 1) \<le> of_int p" and "(of_int p :: rat) < 2 powi bitlen p"
proof -
  from bitlen_bounds[OF assms] have b: "2 ^ nat (bitlen p - 1) \<le> p" "p < 2 ^ nat (bitlen p)"
    by simp_all
  have pos: "1 \<le> bitlen p"
  proof (rule ccontr)
    assume "\<not> 1 \<le> bitlen p"
    then have "nat (bitlen p) = 0" by simp
    with b(2) assms show False by simp
  qed
  have "(of_int (2 ^ nat (bitlen p - 1)) :: rat) \<le> of_int p" using b(1) by (simp only: of_int_le_iff)
  moreover have "(2::rat) powi (bitlen p - 1) = 2 ^ nat (bitlen p - 1)"
    using pos by (simp add: power_int_def)
  ultimately show "(2::rat) powi (bitlen p - 1) \<le> of_int p" by simp
  have "(of_int p :: rat) < of_int (2 ^ nat (bitlen p))" using b(2) by (simp only: of_int_less_iff)
  moreover have "(2::rat) powi bitlen p = 2 ^ nat (bitlen p)"
    using pos by (simp add: power_int_def)
  ultimately show "(of_int p :: rat) < 2 powi bitlen p" by simp
qed

lemma exponentOf_bounds:
  assumes "0 < a"
  shows "2 powi exponentOf a \<le> a" and "a < 2 powi (exponentOf a + 1)"
proof -
  obtain p q where pq: "quotient_of a = (p, q)" by (cases "quotient_of a") auto
  have q: "0 < q" using pq by (rule quotient_of_denom_pos)
  have a: "a = of_int p / of_int q" using pq by (rule quotient_of_div)
  have p: "0 < p"
  proof -
    have "0 < (of_int p :: rat) / of_int q" using assms a by simp
    then have "0 < (of_int p :: rat)" using q by (simp add: zero_less_divide_iff)
    then show ?thesis by simp
  qed
  define d where "d = bitlen p - bitlen q"
  note P = bitlen_bounds_rat[OF p]
  note Q = bitlen_bounds_rat[OF q]
  have qpos: "0 < (of_int q :: rat)" using q by simp
  have up: "a < 2 powi (d + 1)"
  proof -
    have "of_int p < (2::rat) powi bitlen p" by (rule P(2))
    also have "(2::rat) powi bitlen p = 2 powi (d + 1) * 2 powi (bitlen q - 1)"
      unfolding d_def by (simp flip: power_int_add)
    also have "\<dots> \<le> 2 powi (d + 1) * of_int q"
      using Q(1) by (simp only: mult_le_cancel_left_pos powi_two_pos)
    finally have "of_int p < 2 powi (d + 1) * (of_int q :: rat)" .
    then show ?thesis unfolding a using qpos by (simp add: divide_less_eq)
  qed
  have lo: "2 powi (d - 1) < a"
  proof -
    have "2 powi (d - 1) * (of_int q :: rat) < 2 powi (d - 1) * 2 powi bitlen q"
      using Q(2) by (simp only: mult_less_cancel_left_pos powi_two_pos)
    also have "2 powi (d - 1) * (2::rat) powi bitlen q = 2 powi (bitlen p - 1)"
      unfolding d_def by (simp flip: power_int_add)
    also have "\<dots> \<le> of_int p" by (rule P(1))
    finally have "2 powi (d - 1) * (of_int q :: rat) < of_int p" .
    then show ?thesis unfolding a using qpos by (simp add: less_divide_eq)
  qed
  have e: "exponentOf a = (if 2 powi d \<le> a then d else d - 1)"
    by (simp add: exponentOf_def pq d_def Let_def)
  show "2 powi exponentOf a \<le> a" using lo by (simp add: e)
  show "a < 2 powi (exponentOf a + 1)" using up by (simp add: e not_le)
qed

lemma exponentOf_unique:
  assumes "2 powi e \<le> a" and "a < 2 powi (e + 1)"
  shows "exponentOf a = e"
proof -
  have pos: "0 < a" using assms(1) powi_two_pos[of e] by linarith
  note B = exponentOf_bounds[OF pos]
  have "(2::rat) powi exponentOf a < 2 powi (e + 1)" using B(1) assms(2) by linarith
  then have "exponentOf a < e + 1" by (rule powi_less_imp_less)
  moreover have "(2::rat) powi e < 2 powi (exponentOf a + 1)" using B(2) assms(1) by linarith
  then have "e < exponentOf a + 1" by (rule powi_less_imp_less)
  ultimately show ?thesis by simp
qed


lemma exponentOf_ge:
  assumes "2 powi e \<le> a"
  shows "e \<le> exponentOf a"
proof -
  have pos: "0 < a" using assms powi_two_pos[of e] by linarith
  have "(2::rat) powi e < 2 powi (exponentOf a + 1)"
    using exponentOf_bounds(2)[OF pos] assms by linarith
  then have "e < exponentOf a + 1" by (rule powi_less_imp_less)
  then show ?thesis by simp
qed

lemma exponentOf_less:
  assumes "0 < a" and "a < 2 powi e"
  shows "exponentOf a < e"
proof -
  have "(2::rat) powi exponentOf a < 2 powi e"
    using exponentOf_bounds(1)[OF assms(1)] assms(2) by linarith
  then show ?thesis by (rule powi_less_imp_less)
qed

subsection \<open>Rounding to the nearest integer\<close>






lemma roundEven_of_int [simp]: "roundEven (of_int K) = K"
  by (simp add: roundEven_def)


subsection \<open>Rounding of a number that is at least 1\<close>

lemma exponentOf_nonneg:
  assumes "1 \<le> x"
  shows "0 \<le> exponentOf x"
proof -
  have "(2::rat) powi 0 \<le> x" using assms by simp
  then show ?thesis by (rule exponentOf_ge)
qed

lemma fl_normal:
  assumes "1 \<le> x"
  shows "fl x = 2 powi (exponentOf x - 52) * of_int (roundEven (x / 2 powi (exponentOf x - 52)))"
proof -
  have "0 \<le> exponentOf x" using assms by (rule exponentOf_nonneg)
  then have "max (exponentOf x) (- 1022) = exponentOf x" by simp
  moreover have "x \<noteq> 0" "0 < x" "\<bar>x\<bar> = x" using assms by simp_all
  ultimately show ?thesis by (simp add: fl_def Let_def)
qed




lemma fl_one [simp]: "fl 1 = 1"
proof -
  have e: "exponentOf 1 = 0" by (rule exponentOf_unique) simp_all
  have "(1::rat) / 2 powi (- 52) = of_int (2 ^ 52)" by (simp add: power_int_minus)
  then have "roundEven ((1::rat) / 2 powi (- 52)) = 2 ^ 52" by (simp only: roundEven_of_int)
  then show ?thesis by (simp add: fl_normal e power_int_minus)
qed



subsection \<open>Adding 1 before rounding\<close>

lemma inverse_unit:
  assumes "e \<le> 52"
  shows "1 / (2::rat) powi (e - 52) = of_int (2 ^ nat (52 - e))"
proof -
  have "(2::rat) powi (e - 52) = 2 powi (- (52 - e))" by simp
  also have "\<dots> = 1 / 2 powi (52 - e)" by (rule power_int_minus_divide)
  also have "(2::rat) powi (52 - e) = 2 ^ nat (52 - e)" using assms by (simp add: power_int_def)
  finally show ?thesis by simp
qed


subsection \<open>The floors of the bucket boundaries\<close>



lemma bucketFloor_zero [simp]: "bucketFloor s 0 = 0"
  by (simp add: bucketFloor_def)




subsection \<open>Numbers that rounding leaves unchanged\<close>

text \<open>
  A multiple of 1/4 of magnitude below \<open>2^51\<close> is a binary64 number: rounding returns
  it. The equations below let the evaluation of an example skip the rounding of such
  a number.
\<close>

lemma fl_quarter_pos:
  assumes q: "of_int j = a * 4" and pos: "0 < a" and lt: "a < 2 ^ 51"
  shows "2 powi (max (exponentOf a) (- 1022) - 52)
           * of_int (roundEven (a / 2 powi (max (exponentOf a) (- 1022) - 52))) = a"
    and "exponentOf a < 1024"
proof -
  define e where "e = exponentOf a"
  have "0 < (of_int j :: rat)" using q pos by simp
  then have "1 \<le> j" by simp
  then have "(of_int 1 :: rat) \<le> of_int j" by (simp only: of_int_le_iff)
  then have "1 / 4 \<le> a" using q by simp
  then have "2 powi (- 2) \<le> a" by (simp add: power_int_minus)
  then have lo: "- 2 \<le> e" unfolding e_def by (rule exponentOf_ge)
  have "a < 2 powi 51" using lt by simp
  then have hi: "e < 51" unfolding e_def using pos by (intro exponentOf_less)
  from hi show "exponentOf a < 1024" by (simp add: e_def)
  have m: "max e (- 1022) = e" using lo by simp
  define u :: rat where "u = 2 powi (e - 52)"
  have u: "0 < u" unfolding u_def by simp
  have "1 / u = of_int (2 ^ nat (52 - e))" unfolding u_def using hi by (intro inverse_unit) simp
  also have "nat (52 - e) = 2 + nat (50 - e)" using hi by simp
  finally have iu: "1 / u = 4 * of_int (2 ^ nat (50 - e))" by (simp add: power_add)
  have "a / u = a * (1 / u)" by simp
  also have "\<dots> = of_int (j * 2 ^ nat (50 - e))" unfolding iu using q by simp
  finally have "of_int (roundEven (a / u)) = a / u" by (simp only: roundEven_of_int)
  then have "u * of_int (roundEven (a / u)) = a" using u by simp
  then show "2 powi (max (exponentOf a) (- 1022) - 52)
           * of_int (roundEven (a / 2 powi (max (exponentOf a) (- 1022) - 52))) = a"
    unfolding e_def[symmetric] m u_def .
qed

lemma quarter_abs:
  assumes "of_int \<lfloor>x * 4\<rfloor> = x * 4"
  shows "of_int \<bar>\<lfloor>x * 4\<rfloor>\<bar> = \<bar>x\<bar> * (4::rat)"
proof -
  have "(of_int \<bar>\<lfloor>x * 4\<rfloor>\<bar> :: rat) = \<bar>of_int \<lfloor>x * 4\<rfloor>\<bar>" by simp
  then show ?thesis unfolding assms by simp
qed

lemma fl_quarter:
  assumes "\<bar>x\<bar> < 2251799813685248" and "of_int \<lfloor>x * 4\<rfloor> = x * 4"
  shows "fl x = x"
proof (cases "x = 0")
  case True
  then show ?thesis by simp
next
  case False
  then have pos: "0 < \<bar>x\<bar>" by simp
  have lt: "\<bar>x\<bar> < 2 ^ 51" using assms(1) by simp
  note Q = fl_quarter_pos(1)[OF quarter_abs[OF assms(2)] pos lt]
  have "fl x =
      (if 0 < x
       then 2 powi (max (exponentOf \<bar>x\<bar>) (- 1022) - 52)
              * of_int (roundEven (\<bar>x\<bar> / 2 powi (max (exponentOf \<bar>x\<bar>) (- 1022) - 52)))
       else - (2 powi (max (exponentOf \<bar>x\<bar>) (- 1022) - 52)
              * of_int (roundEven (\<bar>x\<bar> / 2 powi (max (exponentOf \<bar>x\<bar>) (- 1022) - 52)))))"
    unfolding fl_def Let_def by (simp only: False if_False)
  also have "\<dots> = (if 0 < x then \<bar>x\<bar> else - \<bar>x\<bar>)" by (simp only: Q)
  also have "\<dots> = x" by simp
  finally show ?thesis .
qed

lemma round64_quarter:
  assumes "\<bar>x\<bar> < 2251799813685248" and "of_int \<lfloor>x * 4\<rfloor> = x * 4"
  shows "round64 x = Fin x"
proof (cases "x = 0")
  case True
  have "exponentOf 0 = - 2" by code_simp
  with True show ?thesis by (simp add: round64_def)
next
  case False
  then have pos: "0 < \<bar>x\<bar>" by simp
  have lt: "\<bar>x\<bar> < 2 ^ 51" using assms(1) by simp
  have "exponentOf \<bar>x\<bar> < 1024" by (rule fl_quarter_pos(2)[OF quarter_abs[OF assms(2)] pos lt])
  then show ?thesis by (simp add: round64_def fl_quarter[OF assms])
qed

lemma fl_code [code]:
  "fl x =
     (if \<bar>x\<bar> < 2251799813685248 \<and> of_int \<lfloor>x * 4\<rfloor> = x * 4 then x
      else (let a = \<bar>x\<bar>;
                e = max (exponentOf a) (- 1022);
                u = 2 powi (e - 52);
                r = u * of_int (roundEven (a / u))
            in if 0 < x then r else - r))"
proof (cases "\<bar>x\<bar> < 2251799813685248 \<and> of_int \<lfloor>x * 4\<rfloor> = x * 4")
  case True
  then show ?thesis using fl_quarter[of x] by simp
next
  case False
  then have "x \<noteq> 0" by auto
  with False show ?thesis unfolding fl_def by (simp only: if_False)
qed

lemma round64_code [code]:
  "round64 x =
     (if \<bar>x\<bar> < 2251799813685248 \<and> of_int \<lfloor>x * 4\<rfloor> = x * 4 then Fin x
      else (let r = fl x
            in if 1024 \<le> exponentOf \<bar>r\<bar> then (if 0 < x then PInf else NInf) else Fin r))"
proof (cases "\<bar>x\<bar> < 2251799813685248 \<and> of_int \<lfloor>x * 4\<rfloor> = x * 4")
  case True
  then show ?thesis using round64_quarter[of x] by simp
next
  case False
  then show ?thesis unfolding round64_def by (simp only: if_False)
qed

section \<open>Facts about the numbers and the ranges\<close>

subsection \<open>Coordinates of an element\<close>

lemma pointX_simps [simp]: "pointX (Tuple x y) = x" "pointX (XY x y) = x"
  by (simp_all add: pointX_def)

lemma pointY_simps [simp]: "pointY (Tuple x y) = y" "pointY (XY x y) = y"
  by (simp_all add: pointY_def)

subsection \<open>Order facts\<close>

lemma jlt_irrefl: "\<not> jlt a a"
  by (cases a) auto

lemma jlt_trans: "jlt a b \<Longrightarrow> jlt b c \<Longrightarrow> jlt a c"
  by (cases a; cases b; cases c) auto

lemma jlt_not_jle: "jlt a b \<Longrightarrow> \<not> jle b a"
  by (cases a; cases b) auto

lemma jlt_not_jlt: "jlt a b \<Longrightarrow> \<not> jlt b a"
  by (cases a; cases b) auto

lemma not_jlt_step: "\<not> jlt m x \<Longrightarrow> jlt m m' \<Longrightarrow> \<not> jlt m' x"
  by (cases m; cases x; cases m') auto

lemma not_jle_step: "\<not> jlt m x \<Longrightarrow> jlt m m' \<Longrightarrow> \<not> jle m' x"
  by (cases m; cases x; cases m') auto

lemma absArea2_jabs: "absArea2 ax ay avgX avgY bx by = jabs (area2 ax ay avgX avgY bx by)"
  by (cases "area2 ax ay avgX avgY bx by") (auto simp: absArea2_def Let_def)

lemma jabs_cases: "jabs a = NaN \<or> jabs a = PInf \<or> (\<exists>r. 0 \<le> r \<and> jabs a = Fin r)"
  by (cases a) auto

lemma jlt_minus1_jabs: "jlt (Fin (- 1)) (jabs a) \<longleftrightarrow> a \<noteq> NaN"
  by (cases a) auto

subsection \<open>Ranges\<close>

lemma currentRange_valid:
  assumes "0 \<le> bucketSize" and "2 \<le> lastIndex"
    and "currentRange bucketSize lastIndex bucket = (rs, re)"
  shows "1 \<le> rs \<and> rs < re \<and> re \<le> lastIndex"
proof -
  have "0 \<le> bucketFloor bucketSize bucket" using assms(1) by (rule bucketFloor_nonneg)
  with assms(2,3) show ?thesis
    by (auto simp: currentRange_def Let_def split: if_splits)
qed

subsection \<open>The candidate loop\<close>

lemma maxLoopXY_cases:
  assumes "maxLoopXY data ax ay avgX avgY i e (m, mi) = (M, I)"
  shows "(M = m \<and> I = mi \<and>
            (\<forall>j. i \<le> j \<and> j < e \<longrightarrow> \<not> jlt m (absArea2 ax ay avgX avgY (xAt data j) (yAt data j))))
       \<or> (i \<le> I \<and> I < e \<and> M = absArea2 ax ay avgX avgY (xAt data I) (yAt data I) \<and> jlt m M \<and>
            (\<forall>j. i \<le> j \<and> j < e \<longrightarrow> \<not> jlt M (absArea2 ax ay avgX avgY (xAt data j) (yAt data j))) \<and>
            (\<forall>j. i \<le> j \<and> j < I \<longrightarrow> \<not> jle M (absArea2 ax ay avgX avgY (xAt data j) (yAt data j))))"
  using assms
proof (induction data ax ay avgX avgY i e "(m, mi)" arbitrary: m mi rule: maxLoopXY.induct)
  case (1 data ax ay avgX avgY i e m mi)
  let ?A = "\<lambda>j. absArea2 ax ay avgX avgY (xAt data j) (yAt data j)"
  show ?case
  proof (cases "i < e")
    case False
    with "1.prems" show ?thesis by (auto simp: maxLoopXY.simps)
  next
    case True
    show ?thesis
    proof (cases "jlt m (?A i)")
      case gt: True
      with True "1.prems"
      have run: "maxLoopXY data ax ay avgX avgY (i + 1) e (?A i, i) = (M, I)"
        by (subst (asm) maxLoopXY.simps) (simp add: Let_def jgt_def xAt_def yAt_def)
      have ih: "(M = ?A i \<and> I = i \<and> (\<forall>j. i + 1 \<le> j \<and> j < e \<longrightarrow> \<not> jlt (?A i) (?A j)))
          \<or> (i + 1 \<le> I \<and> I < e \<and> M = ?A I \<and> jlt (?A i) M \<and>
              (\<forall>j. i + 1 \<le> j \<and> j < e \<longrightarrow> \<not> jlt M (?A j)) \<and>
              (\<forall>j. i + 1 \<le> j \<and> j < I \<longrightarrow> \<not> jle M (?A j)))"
        using "1.hyps"[OF True refl refl refl _ run] gt
        by (simp add: jgt_def xAt_def yAt_def)
      then show ?thesis
      proof
        assume a: "M = ?A i \<and> I = i \<and> (\<forall>j. i + 1 \<le> j \<and> j < e \<longrightarrow> \<not> jlt (?A i) (?A j))"
        have "\<forall>j. i \<le> j \<and> j < e \<longrightarrow> \<not> jlt M (?A j)"
        proof (intro allI impI)
          fix j assume "i \<le> j \<and> j < e"
          then have "j = i \<or> (i + 1 \<le> j \<and> j < e)" by linarith
          with a show "\<not> jlt M (?A j)" by (auto simp: jlt_irrefl)
        qed
        with a gt True show ?thesis by auto
      next
        assume b: "i + 1 \<le> I \<and> I < e \<and> M = ?A I \<and> jlt (?A i) M \<and>
              (\<forall>j. i + 1 \<le> j \<and> j < e \<longrightarrow> \<not> jlt M (?A j)) \<and>
              (\<forall>j. i + 1 \<le> j \<and> j < I \<longrightarrow> \<not> jle M (?A j))"
        have 1: "\<forall>j. i \<le> j \<and> j < e \<longrightarrow> \<not> jlt M (?A j)"
        proof (intro allI impI)
          fix j assume "i \<le> j \<and> j < e"
          then have "j = i \<or> (i + 1 \<le> j \<and> j < e)" by linarith
          with b show "\<not> jlt M (?A j)" by (auto dest: jlt_not_jlt)
        qed
        have 2: "\<forall>j. i \<le> j \<and> j < I \<longrightarrow> \<not> jle M (?A j)"
        proof (intro allI impI)
          fix j assume "i \<le> j \<and> j < I"
          then have "j = i \<or> (i + 1 \<le> j \<and> j < I)" by linarith
          with b show "\<not> jle M (?A j)" by (auto dest: jlt_not_jle)
        qed
        from b gt have "jlt m M" by (auto intro: jlt_trans)
        with b 1 2 show ?thesis by auto
      qed
    next
      case ngt: False
      with True "1.prems"
      have run: "maxLoopXY data ax ay avgX avgY (i + 1) e (m, mi) = (M, I)"
        by (subst (asm) maxLoopXY.simps) (simp add: Let_def jgt_def xAt_def yAt_def)
      have ih: "(M = m \<and> I = mi \<and> (\<forall>j. i + 1 \<le> j \<and> j < e \<longrightarrow> \<not> jlt m (?A j)))
          \<or> (i + 1 \<le> I \<and> I < e \<and> M = ?A I \<and> jlt m M \<and>
              (\<forall>j. i + 1 \<le> j \<and> j < e \<longrightarrow> \<not> jlt M (?A j)) \<and>
              (\<forall>j. i + 1 \<le> j \<and> j < I \<longrightarrow> \<not> jle M (?A j)))"
        using "1.hyps"[OF True refl refl refl _ run] ngt
        by (simp add: jgt_def xAt_def yAt_def)
      then show ?thesis
      proof
        assume a: "M = m \<and> I = mi \<and> (\<forall>j. i + 1 \<le> j \<and> j < e \<longrightarrow> \<not> jlt m (?A j))"
        have "\<forall>j. i \<le> j \<and> j < e \<longrightarrow> \<not> jlt m (?A j)"
        proof (intro allI impI)
          fix j assume "i \<le> j \<and> j < e"
          then have "j = i \<or> (i + 1 \<le> j \<and> j < e)" by linarith
          with a ngt show "\<not> jlt m (?A j)" by auto
        qed
        with a show ?thesis by auto
      next
        assume b: "i + 1 \<le> I \<and> I < e \<and> M = ?A I \<and> jlt m M \<and>
              (\<forall>j. i + 1 \<le> j \<and> j < e \<longrightarrow> \<not> jlt M (?A j)) \<and>
              (\<forall>j. i + 1 \<le> j \<and> j < I \<longrightarrow> \<not> jle M (?A j))"
        have 1: "\<forall>j. i \<le> j \<and> j < e \<longrightarrow> \<not> jlt M (?A j)"
        proof (intro allI impI)
          fix j assume "i \<le> j \<and> j < e"
          then have "j = i \<or> (i + 1 \<le> j \<and> j < e)" by linarith
          with b ngt show "\<not> jlt M (?A j)" by (auto dest: not_jlt_step)
        qed
        have 2: "\<forall>j. i \<le> j \<and> j < I \<longrightarrow> \<not> jle M (?A j)"
        proof (intro allI impI)
          fix j assume "i \<le> j \<and> j < I"
          then have "j = i \<or> (i + 1 \<le> j \<and> j < I)" by linarith
          with b ngt show "\<not> jle M (?A j)" by (auto dest: not_jle_step)
        qed
        with b 1 2 show ?thesis by auto
      qed
    qed
  qed
qed

subsection \<open>The average loop and the selected index\<close>


lemma avgLoopXY_foldl:
  "avgLoopXY data i e (sumX, sumY, avgCount) =
     (foldl jadd sumX (map (xAt data) [i..e - 1]),
      foldl jadd sumY (map (yAt data) [i..e - 1]),
      avgCount + length [i..e - 1])"
proof (induction data i e "(sumX, sumY, avgCount)" arbitrary: sumX sumY avgCount
       rule: avgLoopXY.induct)
  case (1 data i e sumX sumY avgCount)
  show ?case
  proof (cases "i < e")
    case True
    then have "[i..e - 1] = i # [i + 1..e - 1]" by (simp add: upto_rec1)
    moreover have "avgLoopXY data i e (sumX, sumY, avgCount) =
        avgLoopXY data (i + 1) e (jadd sumX (xAt data i), jadd sumY (yAt data i), avgCount + 1)"
      using True by (subst avgLoopXY.simps) (simp add: xAt_def yAt_def)
    ultimately show ?thesis using "1.hyps"[OF True]
      by (simp add: xAt_def yAt_def)
  next
    case False
    then show ?thesis by (simp add: avgLoopXY.simps)
  qed
qed

lemma length_upto_range: "length [i..e - 1] = nat (e - i)"
  by simp

lemma nextAverageXY_mean:
  "nextAverageXY data bucketSize lastIndex lastX lastY bucket =
     (let (s, e) = nextRange bucketSize lastIndex bucket
      in if s < e
         then (jmean (map (xAt data) [s..e - 1]), jmean (map (yAt data) [s..e - 1]))
         else (lastX, lastY))"
  by (auto simp: nextAverageXY_def avgLoopXY_foldl jmean_def Let_def split: prod.splits)

lemma bucketStepXY_selected:
  "bucketStepXY data bucketSize lastIndex lastX lastY bucket (a, out, indices) =
     (selectedXY data bucketSize lastIndex lastX lastY bucket a, out + 1,
      indices[out := selectedXY data bucketSize lastIndex lastX lastY bucket a])"
  by (simp add: selectedXY_def bucketStepXY_def Let_def split: prod.splits)

lemma selectedXY_maxLoop:
  assumes "currentRange bucketSize lastIndex bucket = (rs, re)"
    and "nextAverageXY data bucketSize lastIndex lastX lastY bucket = (avgX, avgY)"
  shows "selectedXY data bucketSize lastIndex lastX lastY bucket a =
           snd (maxLoopXY data (xAt data a) (yAt data a) avgX avgY rs re (Fin (- 1), rs))"
  using assms
  by (simp add: selectedXY_def bucketStepXY_def Let_def xAt_def yAt_def split: prod.splits)

lemma selectedXY_props:
  fixes A :: "int \<Rightarrow> jsnum"
  assumes rng: "currentRange bucketSize lastIndex bucket = (rs, re)" and "rs < re"
    and avg: "nextAverageXY data bucketSize lastIndex lastX lastY bucket = (avgX, avgY)"
    and A: "A = (\<lambda>j. absArea2 (xAt data a) (yAt data a) avgX avgY (xAt data j) (yAt data j))"
    and w: "w = selectedXY data bucketSize lastIndex lastX lastY bucket a"
  shows "rs \<le> w \<and> w < re"
    and "\<forall>j. rs \<le> j \<and> j < re \<longrightarrow> \<not> jlt (A w) (A j)"
    and "\<forall>j. rs \<le> j \<and> j < w \<longrightarrow> \<not> jle (A w) (A j)"
    and "w = rs \<or> A w \<noteq> NaN"
    and "A w = NaN \<longrightarrow> (\<forall>j. rs \<le> j \<and> j < re \<longrightarrow> A j = NaN)"
proof -
  obtain M I where run: "maxLoopXY data (xAt data a) (yAt data a) avgX avgY rs re (Fin (- 1), rs) = (M, I)"
    by (cases "maxLoopXY data (xAt data a) (yAt data a) avgX avgY rs re (Fin (- 1), rs)") auto
  then have wI: "w = I" using selectedXY_maxLoop[OF rng avg] w by simp
  have nan: "\<not> jlt (Fin (- 1)) (A j) \<longleftrightarrow> A j = NaN" for j
    unfolding A absArea2_jabs using jlt_minus1_jabs[of "area2 (xAt data a) (yAt data a) avgX avgY (xAt data j) (yAt data j)"]
    by (cases "area2 (xAt data a) (yAt data a) avgX avgY (xAt data j) (yAt data j)") auto
  from maxLoopXY_cases[OF run]
  consider (keep) "M = Fin (- 1)" "I = rs" "\<forall>j. rs \<le> j \<and> j < re \<longrightarrow> \<not> jlt (Fin (- 1)) (A j)"
    | (move) "rs \<le> I" "I < re" "M = A I" "jlt (Fin (- 1)) M"
        "\<forall>j. rs \<le> j \<and> j < re \<longrightarrow> \<not> jlt M (A j)" "\<forall>j. rs \<le> j \<and> j < I \<longrightarrow> \<not> jle M (A j)"
    unfolding A by blast
  then have all: "(rs \<le> w \<and> w < re) \<and> (\<forall>j. rs \<le> j \<and> j < re \<longrightarrow> \<not> jlt (A w) (A j))
      \<and> (\<forall>j. rs \<le> j \<and> j < w \<longrightarrow> \<not> jle (A w) (A j)) \<and> (w = rs \<or> A w \<noteq> NaN)
      \<and> (A w = NaN \<longrightarrow> (\<forall>j. rs \<le> j \<and> j < re \<longrightarrow> A j = NaN))"
  proof cases
    case keep
    then have "\<forall>j. rs \<le> j \<and> j < re \<longrightarrow> A j = NaN" using nan by blast
    with keep wI \<open>rs < re\<close> show ?thesis by auto
  next
    case move
    from move(3,4) have "A I \<noteq> NaN" by (cases M) auto
    with move wI show ?thesis by auto
  qed
  from all show "rs \<le> w \<and> w < re" by blast
  from all show "\<forall>j. rs \<le> j \<and> j < re \<longrightarrow> \<not> jlt (A w) (A j)" by blast
  from all show "\<forall>j. rs \<le> j \<and> j < w \<longrightarrow> \<not> jle (A w) (A j)" by blast
  from all show "w = rs \<or> A w \<noteq> NaN" by blast
  from all show "A w = NaN \<longrightarrow> (\<forall>j. rs \<le> j \<and> j < re \<longrightarrow> A j = NaN)" by blast
qed

subsection \<open>The bucket loop\<close>

lemma bucketLoopXY_props:
  assumes "out = bucket + 1" and "t - 1 < of_nat (length indices)"
    and "a = indices ! bucket"
    and "res = bucketLoopXY data t bs lastIndex lX lY bucket (a, out, indices)"
  shows "length res = length indices \<and>
         (\<forall>k\<le>bucket. res ! k = indices ! k) \<and>
         (\<forall>k<length indices. t - 1 \<le> of_nat k \<longrightarrow> res ! k = indices ! k) \<and>
         (\<forall>b\<ge>bucket. of_nat b < t - 2 \<longrightarrow>
            res ! (b + 1) = selectedXY data bs lastIndex lX lY b (res ! b))"
  using assms
proof (induction data t bs lastIndex lX lY bucket "(a, out, indices)" arbitrary: a out indices
       rule: bucketLoopXY.induct)
  case (1 data t bs lastIndex lX lY bucket a out indices)
  show ?case
  proof (cases "of_nat bucket < t - 2")
    case False
    then have "res = indices" using "1.prems" by (simp add: bucketLoopXY.simps)
    moreover have "\<not> of_nat b < t - 2" if "bucket \<le> b" for b
    proof -
      from that have "(of_nat bucket :: rat) \<le> of_nat b" by simp
      with False show ?thesis by linarith
    qed
    ultimately show ?thesis by auto
  next
    case True
    define w where "w = selectedXY data bs lastIndex lX lY bucket a"
    have step: "bucketStepXY data bs lastIndex lX lY bucket (a, out, indices) =
                  (w, out + 1, indices[out := w])"
      by (simp add: bucketStepXY_selected w_def)
    have res: "res = bucketLoopXY data t bs lastIndex lX lY (bucket + 1) (w, out + 1, indices[out := w])"
      using "1.prems"(4) True step by (subst (asm) bucketLoopXY.simps) simp
    have "of_nat (bucket + 1) < t - 1" using True by simp
    with "1.prems"(2) have "(of_nat (bucket + 1) :: rat) < of_nat (length indices)" by linarith
    then have lt: "bucket + 1 < length indices" by (simp only: of_nat_less_iff)
    have ih: "length res = length (indices[out := w]) \<and>
         (\<forall>k\<le>bucket + 1. res ! k = indices[out := w] ! k) \<and>
         (\<forall>k<length (indices[out := w]). t - 1 \<le> of_nat k \<longrightarrow> res ! k = indices[out := w] ! k) \<and>
         (\<forall>b\<ge>bucket + 1. of_nat b < t - 2 \<longrightarrow>
            res ! (b + 1) = selectedXY data bs lastIndex lX lY b (res ! b))"
    proof (rule "1.hyps"[OF True step])
      show "out + 1 = bucket + 1 + 1" using "1.prems"(1) by simp
      show "t - 1 < of_nat (length (indices[out := w]))" using "1.prems"(2) by simp
      show "w = indices[out := w] ! (bucket + 1)" using "1.prems"(1) lt by simp
      show "res = bucketLoopXY data t bs lastIndex lX lY (bucket + 1) (w, out + 1, indices[out := w])"
        by (rule res)
    qed
    have out: "out = bucket + 1" by (rule "1.prems"(1))
    have a: "length res = length indices" using ih by simp
    have b: "\<forall>k\<le>bucket. res ! k = indices ! k"
    proof (intro allI impI)
      fix k assume "k \<le> bucket"
      then have "res ! k = indices[out := w] ! k" using ih by auto
      also have "\<dots> = indices ! k" using out \<open>k \<le> bucket\<close> by simp
      finally show "res ! k = indices ! k" .
    qed
    have c: "\<forall>k<length indices. t - 1 \<le> of_nat k \<longrightarrow> res ! k = indices ! k"
    proof (intro allI impI)
      fix k assume k: "k < length indices" "t - 1 \<le> of_nat k"
      then have "res ! k = indices[out := w] ! k" using ih by auto
      moreover have "k \<noteq> out"
      proof
        assume "k = out"
        with out k(2) \<open>of_nat (bucket + 1) < t - 1\<close> show False by simp
      qed
      ultimately show "res ! k = indices ! k" by simp
    qed
    have d: "\<forall>b\<ge>bucket. of_nat b < t - 2 \<longrightarrow>
            res ! (b + 1) = selectedXY data bs lastIndex lX lY b (res ! b)"
    proof (intro allI impI)
      fix b assume b1: "bucket \<le> b" and b2: "of_nat b < t - 2"
      show "res ! (b + 1) = selectedXY data bs lastIndex lX lY b (res ! b)"
      proof (cases "b = bucket")
        case True
        have "res ! (bucket + 1) = indices[out := w] ! (bucket + 1)" using ih by auto
        then have "res ! (bucket + 1) = w" using out lt by simp
        moreover have "res ! bucket = a" using b "1.prems"(3) by simp
        ultimately show ?thesis using True w_def by simp
      next
        case False
        with b1 have "bucket + 1 \<le> b" by simp
        with ih b2 show ?thesis by blast
      qed
    qed
    from a b c d show ?thesis by blast
  qed
qed

subsection \<open>Bucket boundaries\<close>

lemma bucketSizeOf_nonneg:
  fixes t :: rat and n :: nat
  assumes "2 < t" and "t < of_nat n"
  shows "0 \<le> bucketSizeOf n t"
proof -
  have "0 < t - 2" using assms(1) by simp
  moreover have "0 \<le> (of_nat n :: rat) - 2" using assms by simp
  ultimately have "0 \<le> (of_nat n - 2) / (t - 2)" by simp
  then show ?thesis unfolding bucketSizeOf_def by (rule fl_nonneg)
qed

lemma storeAt_length [simp]: "length (storeAt indices k v) = length indices"
  by (simp add: storeAt_def)

lemma lttbIndicesXY_bucketed:
  assumes "3 \<le> k" and "k < int (length data div 2)"
  shows "lttbIndicesForInterleavedXY data (Fin (of_int k)) =
     bucketLoopXY data (of_int k)
       (bucketSizeOf (length data div 2) (of_int k)) (int (length data div 2) - 1)
       (xAt data (int (length data div 2) - 1)) (yAt data (int (length data div 2) - 1)) 0
       (0, 1, (replicate (nat k) 0)[nat k - 1 := int (length data div 2) - 1])"
proof -
  have "\<not> jle (Fin (of_int k)) (Fin 0)" using assms by simp
  moreover have "length data div 2 \<noteq> 0" using assms by auto
  moreover have "Fin (rat_of_int k) \<noteq> Fin 1" "Fin (rat_of_int k) \<noteq> Fin 2" using assms by auto
  moreover have "\<not> jle (Fin (of_nat (length data div 2))) (Fin (of_int k))"
  proof -
    have "(of_nat (length data div 2) :: rat) = of_int (int (length data div 2))" by simp
    then show ?thesis using assms by (simp only: jle.simps of_int_le_iff not_le)
  qed
  moreover have "storeAt ((replicate (nat k) 0)[0 := 0]) (of_int k - 1) v = (replicate (nat k) 0)[nat k - 1 := v]" for v
  proof -
    have "(of_int k - 1 :: rat) = of_int (k - 1)" by simp
    then have "\<lfloor>of_int k - 1 :: rat\<rfloor> = k - 1" by (simp only: floor_of_int)
    moreover have "nat (k - 1) = nat k - 1" by simp
    moreover have "(replicate (nat k) (0::int))[0 := 0] = replicate (nat k) 0"
      by (cases "nat k") auto
    ultimately show ?thesis using assms by (simp add: storeAt_def)
  qed
  ultimately show ?thesis
    unfolding lttbIndicesForInterleavedXY_def Let_def xAt_def yAt_def
    by (simp only: if_False simp_thms jsnum.case floor_of_int) 
qed

section \<open>The index list of the bucketed path\<close>

lemma bucketed_structure:
  fixes data :: "jsnum list" and k :: int
  assumes k: "3 \<le> k" "k < int (length data div 2)"
  defines "n \<equiv> length data div 2"
  defines "bs \<equiv> bucketSizeOf n (of_int k)"
  defines "res \<equiv> lttbIndicesForInterleavedXY data (Fin (of_int k))"
  shows "length res = nat k"
    and "res ! 0 = 0"
    and "res ! (nat k - 1) = int n - 1"
    and "\<forall>b. int b < k - 2 \<longrightarrow>
           res ! (b + 1) = selectedXY data bs (int n - 1) (xAt data (int n - 1)) (yAt data (int n - 1)) b (res ! b)"
proof -
  define indices where "indices = (replicate (nat k) (0::int))[nat k - 1 := int n - 1]"
  have res: "res = bucketLoopXY data (of_int k) bs (int n - 1) (xAt data (int n - 1)) (yAt data (int n - 1)) 0
               (0, 1, indices)"
    unfolding res_def bs_def n_def indices_def by (rule lttbIndicesXY_bucketed[OF k])
  have len: "length indices = nat k" by (simp add: indices_def)
  have "(of_int k - 1 :: rat) < of_int k" by simp
  also have "(of_int k :: rat) = of_nat (nat k)" using k(1) by simp
  finally have c2: "(of_int k - 1 :: rat) < of_nat (length indices)" using len by simp
  have i0: "indices ! 0 = 0" using k(1) by (simp add: indices_def nth_list_update)
  have il: "indices ! (nat k - 1) = int n - 1" using k(1) by (simp add: indices_def)
  note P = bucketLoopXY_props[where bucket = 0 and out = 1 and a = 0 and indices = indices
      and t = "of_int k" and res = res, OF _ c2 i0[symmetric] res, simplified]
  from P show "length res = nat k" using len by simp
  from P show "res ! 0 = 0" using i0 by simp
  have "(of_int k - 1 :: rat) \<le> of_nat (nat k - 1)"
  proof -
    have "int (nat k - 1) = k - 1" using k(1) by simp
    then have "(of_nat (nat k - 1) :: rat) = of_int (k - 1)" by (metis of_int_of_nat_eq)
    then show ?thesis by simp
  qed
  moreover have "nat k - 1 < length indices" using len k(1) by simp
  ultimately show "res ! (nat k - 1) = int n - 1" using P il by metis
  show "\<forall>b. int b < k - 2 \<longrightarrow>
           res ! (b + 1) = selectedXY data bs (int n - 1) (xAt data (int n - 1)) (yAt data (int n - 1)) b (res ! b)"
  proof (intro allI impI)
    fix b :: nat assume "int b < k - 2"
    then have "of_int (int b) < (of_int (k - 2) :: rat)" by (simp only: of_int_less_iff)
    then have "(of_nat b :: rat) < of_int k - 2" by simp
    with P show "res ! (b + 1) = selectedXY data bs (int n - 1) (xAt data (int n - 1)) (yAt data (int n - 1)) b (res ! b)"
      by simp
  qed
qed

lemma bucketed_in_range:
  fixes data :: "jsnum list" and k :: int
  assumes k: "3 \<le> k" "k < int (length data div 2)"
  defines "n \<equiv> length data div 2"
  defines "bs \<equiv> bucketSizeOf n (of_int k)"
  defines "res \<equiv> lttbIndicesForInterleavedXY data (Fin (of_int k))"
  assumes b: "int b < k - 2"
  shows "fst (currentRange bs (int n - 1) b) \<le> res ! (b + 1)"
    and "res ! (b + 1) < snd (currentRange bs (int n - 1) b)"
    and "1 \<le> fst (currentRange bs (int n - 1) b)"
    and "snd (currentRange bs (int n - 1) b) \<le> int n - 1"
proof -
  have t: "(2::rat) < of_int k" "(of_int k :: rat) < of_nat n"
  proof -
    have "(of_int 2 :: rat) < of_int k" using k(1) by (simp only: of_int_less_iff)
    then show "(2::rat) < of_int k" by simp
    have "(of_int k :: rat) < of_int (int n)" using k(2) unfolding n_def by (simp only: of_int_less_iff)
    then show "(of_int k :: rat) < of_nat n" by simp
  qed
  have bs1: "0 \<le> bs" unfolding bs_def by (rule bucketSizeOf_nonneg[OF t])
  obtain rs re where rng: "currentRange bs (int n - 1) b = (rs, re)"
    by (cases "currentRange bs (int n - 1) b") auto
  obtain avgX avgY where avg: "nextAverageXY data bs (int n - 1) (xAt data (int n - 1)) (yAt data (int n - 1)) b = (avgX, avgY)"
    by (cases "nextAverageXY data bs (int n - 1) (xAt data (int n - 1)) (yAt data (int n - 1)) b") auto
  have n4: "2 \<le> int n - 1" using k unfolding n_def by linarith
  have valid: "1 \<le> rs \<and> rs < re \<and> re \<le> int n - 1"
    using currentRange_valid[OF _ n4 rng] bs1 by simp
  have sel: "res ! (b + 1) = selectedXY data bs (int n - 1) (xAt data (int n - 1)) (yAt data (int n - 1)) b (res ! b)"
    using bucketed_structure(4)[OF k] b unfolding res_def bs_def n_def by blast
  have "rs \<le> res ! (b + 1) \<and> res ! (b + 1) < re"
    using selectedXY_props(1)[OF rng _ avg refl sel] valid by blast
  with rng valid show "fst (currentRange bs (int n - 1) b) \<le> res ! (b + 1)"
    and "res ! (b + 1) < snd (currentRange bs (int n - 1) b)"
    and "1 \<le> fst (currentRange bs (int n - 1) b)"
    and "snd (currentRange bs (int n - 1) b) \<le> int n - 1" by simp_all
qed

section \<open>The index list for every target count\<close>

lemma lttbIndicesXY_empty:
  "k \<le> 0 \<or> length data div 2 = 0 \<Longrightarrow> lttbIndicesForInterleavedXY data (Fin (of_int k)) = []"
  by (auto simp: lttbIndicesForInterleavedXY_def Let_def)

lemma lttbIndicesXY_one:
  "0 < length data div 2 \<Longrightarrow> lttbIndicesForInterleavedXY data (Fin (of_int 1)) = [0]"
  by (simp add: lttbIndicesForInterleavedXY_def Let_def)

lemma lttbIndicesXY_two:
  "2 \<le> length data div 2 \<Longrightarrow>
   lttbIndicesForInterleavedXY data (Fin (of_int 2)) = [0, int (length data div 2) - 1]"
  by (simp add: lttbIndicesForInterleavedXY_def Let_def)

lemma lttbIndicesXY_all:
  assumes "0 < length data div 2" "0 < k" "int (length data div 2) \<le> k"
  shows "lttbIndicesForInterleavedXY data (Fin (of_int k)) = map int [0..<length data div 2]"
proof -
  have "(of_nat (length data div 2) :: rat) = of_int (int (length data div 2))" by simp
  then have le: "jle (Fin (of_nat (length data div 2))) (Fin (of_int k))"
    using assms(3) by (simp only: jle.simps of_int_le_iff)
  show ?thesis
  proof (cases "k = 1 \<or> k = 2")
    case True
    with assms have "length data div 2 = 1 \<or> (k = 2 \<and> length data div 2 = 2)" by linarith
    then have "map int [0..<length data div 2] =
        (if length data div 2 = 1 then [0] else [0, int (length data div 2) - 1])"
      by (auto simp: upt_rec)
    with True assms le show ?thesis
      by (auto simp: lttbIndicesForInterleavedXY_def Let_def)
  next
    case False
    then have "(of_int k :: rat) \<noteq> 1" "(of_int k :: rat) \<noteq> 2"
      by (metis of_int_eq_1_iff, metis of_int_eq_numeral_iff)
    with assms le show ?thesis
      by (simp add: lttbIndicesForInterleavedXY_def Let_def)
  qed
qed

lemma lttbIndicesXY_reduced:
  fixes data :: "jsnum list" and k :: int
  assumes k: "1 \<le> k" "k < int (length data div 2)"
  defines "res \<equiv> lttbIndicesForInterleavedXY data (Fin (of_int k))"
  shows "length res = nat k"
    and "res ! 0 = 0"
    and "2 \<le> k \<Longrightarrow> res ! (nat k - 1) = int (length data div 2) - 1"
proof -
  consider (one) "k = 1" | (two) "k = 2" | (more) "3 \<le> k" using k(1) by linarith
  then have "length res = nat k \<and> res ! 0 = 0 \<and> (2 \<le> k \<longrightarrow> res ! (nat k - 1) = int (length data div 2) - 1)"
  proof cases
    case one
    then show ?thesis unfolding res_def using lttbIndicesXY_one[of data] k(2) by simp
  next
    case two
    then show ?thesis unfolding res_def using lttbIndicesXY_two[of data] k(2) by simp
  next
    case more
    show ?thesis unfolding res_def
      using bucketed_structure(1,2,3)[OF more k(2)] by simp
  qed
  then show "length res = nat k" and "res ! 0 = 0"
    and "2 \<le> k \<Longrightarrow> res ! (nat k - 1) = int (length data div 2) - 1" by simp_all
qed

lemma lttbIndicesXY_bounds:
  fixes data :: "jsnum list" and k :: int
  assumes k: "1 \<le> k" "k < int (length data div 2)"
  shows "\<forall>x \<in> set (lttbIndicesForInterleavedXY data (Fin (of_int k))). 0 \<le> x \<and> x < int (length data div 2)"
proof
  define res where "res = lttbIndicesForInterleavedXY data (Fin (of_int k))"
  note R = lttbIndicesXY_reduced[OF k, folded res_def]
  fix x assume "x \<in> set (lttbIndicesForInterleavedXY data (Fin (of_int k)))"
  then obtain i where i: "i < length res" "res ! i = x" unfolding res_def[symmetric]
    by (auto simp: in_set_conv_nth)
  consider (first) "i = 0" | (last) "2 \<le> k" "i = nat k - 1" | (mid) "1 \<le> i" "int i < k - 1"
    using i(1) R(1) by linarith
  then show "0 \<le> x \<and> x < int (length data div 2)"
  proof cases
    case first
    with i R(2) k show ?thesis by simp
  next
    case last
    with R(3)[OF last(1)] i k show ?thesis by simp
  next
    case mid
    define b where "b = i - 1"
    have bi: "b + 1 = i" using mid(1) by (simp add: b_def)
    have k3: "3 \<le> k" using mid by linarith
    have b: "int b < k - 2" using mid bi by linarith
    note B = bucketed_in_range[OF k3 k(2) b, folded res_def]
    from B have "1 \<le> res ! (b + 1)" "res ! (b + 1) < int (length data div 2) - 1" by linarith+
    with bi i show ?thesis by simp
  qed
qed

section \<open>Point arrays against buffers\<close>

lemma length_slotPairs [simp]: "length (slotPairs d) = length d div 2"
  by (induction d rule: slotPairs.induct) auto

lemma nth_slotPairs:
  "i < length d div 2 \<Longrightarrow> slotPairs d ! i = (d ! (2 * i), d ! (2 * i + 1))"
proof (induction d arbitrary: i rule: slotPairs.induct)
  case (1 x y rest)
  then show ?case by (cases i) auto
qed auto

lemma xyAt_slotPairs:
  assumes "0 \<le> i" and "i < int (length d div 2)"
  shows "(xAt d i, yAt d i) = slotPairs d ! nat i"
proof -
  from assms have "nat i < length d div 2" by linarith
  moreover from assms have "nat (i * 2) = 2 * nat i" "nat (i * 2 + 1) = 2 * nat i + 1"
    by linarith+
  moreover from assms have "i * 2 + 1 < int (length d)" by linarith
  ultimately show ?thesis using assms
    by (simp add: xAt_def yAt_def f32get_def nth_slotPairs)
qed


lemma samePoints_length: "samePoints d ps \<Longrightarrow> length d div 2 = length ps"
  unfolding samePoints_def by (metis length_slotPairs length_map)

lemma samePoints_read:
  assumes "samePoints d ps" and "0 \<le> i" and "i < int (length ps)"
  shows "getPoint ps i = Inr (ps ! nat i)"
    and "xAt d i = pointX (ps ! nat i)" and "yAt d i = pointY (ps ! nat i)"
proof -
  show "getPoint ps i = Inr (ps ! nat i)" using assms(2,3) by (simp add: getPoint_def)
  have "i < int (length d div 2)" using assms(1,3) by (simp add: samePoints_length)
  then have "(xAt d i, yAt d i) = slotPairs d ! nat i" using assms(2) by (rule xyAt_slotPairs[rotated])
  also have "\<dots> = (pointX (ps ! nat i), pointY (ps ! nat i))"
    using assms by (simp add: samePoints_def)
  finally show "xAt d i = pointX (ps ! nat i)" and "yAt d i = pointY (ps ! nat i)" by simp_all
qed

lemma avgLoop_same:
  assumes "samePoints d ps" and "0 \<le> i" and "e \<le> int (length ps)"
  shows "avgLoopDP ps i e (sumX, sumY, avgCount) = Inr (avgLoopXY d i e (sumX, sumY, avgCount))"
  using assms
proof (induction d i e "(sumX, sumY, avgCount)" arbitrary: sumX sumY avgCount rule: avgLoopXY.induct)
  case (1 d i e sumX sumY avgCount)
  show ?case
  proof (cases "i < e")
    case True
    with "1.prems" have i: "0 \<le> i" "i < int (length ps)" by linarith+
    note rd = samePoints_read[OF "1.prems"(1) i]
    have "avgLoopDP ps i e (sumX, sumY, avgCount) =
            avgLoopDP ps (i + 1) e (jadd sumX (xAt d i), jadd sumY (yAt d i), avgCount + 1)"
      using True rd by (subst avgLoopDP.simps) (simp add: Let_def)
    also have "\<dots> = Inr (avgLoopXY d (i + 1) e (jadd sumX (xAt d i), jadd sumY (yAt d i), avgCount + 1))"
      using "1.hyps"[OF True] "1.prems" i by (simp add: xAt_def yAt_def)
    also have "avgLoopXY d (i + 1) e (jadd sumX (xAt d i), jadd sumY (yAt d i), avgCount + 1) =
                 avgLoopXY d i e (sumX, sumY, avgCount)"
      using True by (subst avgLoopXY.simps[of d i]) (simp add: xAt_def yAt_def)
    finally show ?thesis .
  next
    case False
    then show ?thesis by (simp add: avgLoopDP.simps avgLoopXY.simps)
  qed
qed

lemma maxLoop_same:
  assumes "samePoints d ps" and "0 \<le> i" and "e \<le> int (length ps)"
  shows "maxLoopDP ps ax ay avgX avgY i e (maxArea, maxIndex) =
           Inr (maxLoopXY d ax ay avgX avgY i e (maxArea, maxIndex))"
  using assms
proof (induction d ax ay avgX avgY i e "(maxArea, maxIndex)" arbitrary: maxArea maxIndex
       rule: maxLoopXY.induct)
  case (1 d ax ay avgX avgY i e maxArea maxIndex)
  show ?case
  proof (cases "i < e")
    case True
    with "1.prems" have i: "0 \<le> i" "i < int (length ps)" by linarith+
    note rd = samePoints_read[OF "1.prems"(1) i]
    define s' where "s' = (if jgt (absArea2 ax ay avgX avgY (xAt d i) (yAt d i)) maxArea
                           then (absArea2 ax ay avgX avgY (xAt d i) (yAt d i), i) else (maxArea, maxIndex))"
    have "maxLoopDP ps ax ay avgX avgY i e (maxArea, maxIndex) = maxLoopDP ps ax ay avgX avgY (i + 1) e s'"
      using True rd by (subst maxLoopDP.simps) (simp add: Let_def s'_def)
    also have "\<dots> = Inr (maxLoopXY d ax ay avgX avgY (i + 1) e s')"
      using "1.hyps"[OF True refl refl refl, of "fst s'" "snd s'"] "1.prems" i
      by (simp add: xAt_def yAt_def s'_def)
    also have "maxLoopXY d ax ay avgX avgY (i + 1) e s' = maxLoopXY d ax ay avgX avgY i e (maxArea, maxIndex)"
      using True by (subst maxLoopXY.simps[of d ax ay avgX avgY i]) (simp add: xAt_def yAt_def s'_def Let_def)
    finally show ?thesis .
  next
    case False
    then show ?thesis by (simp add: maxLoopDP.simps maxLoopXY.simps)
  qed
qed

lemma nextAverage_same:
  assumes "samePoints d ps" and "0 \<le> bucketSize" and "lastIndex \<le> int (length ps)"
  shows "nextAverageDP ps bucketSize lastIndex lastX lastY bucket =
           Inr (nextAverageXY d bucketSize lastIndex lastX lastY bucket)"
proof -
  obtain s e where rng: "nextRange bucketSize lastIndex bucket = (s, e)"
    by (cases "nextRange bucketSize lastIndex bucket") auto
  have "0 \<le> bucketFloor bucketSize (bucket + 1)" using assms(2) by (rule bucketFloor_nonneg)
  with rng assms(3) have "0 \<le> s" "e \<le> int (length ps)"
    by (auto simp: nextRange_def)
  then have "avgLoopDP ps s e (Fin 0, Fin 0, 0) = Inr (avgLoopXY d s e (Fin 0, Fin 0, 0))"
    by (rule avgLoop_same[OF assms(1)])
  with rng show ?thesis
    by (simp add: nextAverageDP_def nextAverageXY_def Let_def split: prod.splits)
qed

lemma bucketStep_same:
  assumes same: "samePoints d ps" and bs: "0 \<le> bucketSize"
    and last: "2 \<le> lastIndex" "lastIndex < int (length ps)"
    and a: "0 \<le> a" "a < int (length ps)"
  shows "bucketStepDP ps bucketSize lastIndex lastX lastY bucket (a, out, indices) =
           Inr (bucketStepXY d bucketSize lastIndex lastX lastY bucket (a, out, indices))"
proof -
  obtain rs re where rng: "currentRange bucketSize lastIndex bucket = (rs, re)"
    by (cases "currentRange bucketSize lastIndex bucket") auto
  obtain avgX avgY where avg: "nextAverageXY d bucketSize lastIndex lastX lastY bucket = (avgX, avgY)"
    by (cases "nextAverageXY d bucketSize lastIndex lastX lastY bucket") auto
  have avgDP: "nextAverageDP ps bucketSize lastIndex lastX lastY bucket = Inr (avgX, avgY)"
    using nextAverage_same[OF same bs, of lastIndex lastX lastY bucket] last avg by simp
  from currentRange_valid[OF bs last(1) rng] last(2)
  have r: "0 \<le> rs" "re \<le> int (length ps)" by linarith+
  note rd = samePoints_read[OF same a]
  have mx: "maxLoopDP ps (pointX (ps ! nat a)) (pointY (ps ! nat a)) avgX avgY rs re (Fin (- 1), rs) =
        Inr (maxLoopXY d (xAt d a) (yAt d a) avgX avgY rs re (Fin (- 1), rs))"
    using maxLoop_same[OF same r] rd by simp
  show ?thesis
    using rng avg avgDP rd(1) mx
    by (simp add: bucketStepDP_def bucketStepXY_def Let_def xAt_def yAt_def rd(2,3)[unfolded xAt_def yAt_def]
             split: prod.splits)
qed

lemma bucketLoop_same:
  assumes same: "samePoints d ps" and bs: "0 \<le> bucketSize"
    and last: "2 \<le> lastIndex" "lastIndex < int (length ps)"
    and a: "0 \<le> a" "a < int (length ps)"
  shows "bucketLoopDP ps t bucketSize lastIndex lastX lastY bucket (a, out, indices) =
           Inr (bucketLoopXY d t bucketSize lastIndex lastX lastY bucket (a, out, indices))"
  using assms
proof (induction d t bucketSize lastIndex lastX lastY bucket "(a, out, indices)"
       arbitrary: a out indices rule: bucketLoopXY.induct)
  case (1 d t bucketSize lastIndex lastX lastY bucket a out indices)
  show ?case
  proof (cases "of_nat bucket < t - 2")
    case False
    then show ?thesis by (simp add: bucketLoopDP.simps bucketLoopXY.simps)
  next
    case True
    define w where "w = selectedXY d bucketSize lastIndex lastX lastY bucket a"
    have step: "bucketStepXY d bucketSize lastIndex lastX lastY bucket (a, out, indices) =
                  (w, out + 1, indices[out := w])"
      by (simp add: bucketStepXY_selected w_def)
    have stepDP: "bucketStepDP ps bucketSize lastIndex lastX lastY bucket (a, out, indices) =
                  Inr (w, out + 1, indices[out := w])"
      using bucketStep_same[OF "1.prems"] step by simp
    obtain rs re where rng: "currentRange bucketSize lastIndex bucket = (rs, re)"
      by (cases "currentRange bucketSize lastIndex bucket") auto
    obtain avgX avgY where avg: "nextAverageXY d bucketSize lastIndex lastX lastY bucket = (avgX, avgY)"
      by (cases "nextAverageXY d bucketSize lastIndex lastX lastY bucket") auto
    have valid: "1 \<le> rs \<and> rs < re \<and> re \<le> lastIndex"
      by (rule currentRange_valid[OF "1.prems"(2,3) rng])
    then have "rs \<le> w \<and> w < re"
      using selectedXY_props(1)[OF rng _ avg refl w_def] by blast
    with valid "1.prems"(4) have w: "0 \<le> w" "w < int (length ps)" by linarith+
    have "bucketLoopDP ps t bucketSize lastIndex lastX lastY bucket (a, out, indices) =
            bucketLoopDP ps t bucketSize lastIndex lastX lastY (bucket + 1) (w, out + 1, indices[out := w])"
      using True stepDP by (subst bucketLoopDP.simps) simp
    also have "\<dots> = Inr (bucketLoopXY d t bucketSize lastIndex lastX lastY (bucket + 1) (w, out + 1, indices[out := w]))"
      by (rule "1.hyps"[OF True step "1.prems"(1,2,3,4) w])
    also have "bucketLoopXY d t bucketSize lastIndex lastX lastY (bucket + 1) (w, out + 1, indices[out := w]) =
                 bucketLoopXY d t bucketSize lastIndex lastX lastY bucket (a, out, indices)"
      using True step by (subst bucketLoopXY.simps[of d t bucketSize lastIndex lastX lastY bucket]) simp
    finally show ?thesis .
  qed
qed

lemma lttbIndices_same:
  assumes same: "samePoints d ps"
  shows "lttbIndicesForDataPoints ps tp = Inr (lttbIndicesForInterleavedXY d tp)"
proof -
  note n = samePoints_length[OF same]
  show ?thesis
  proof (cases "jle tp (Fin 0) \<or> length ps = 0 \<or> tp = Fin 1 \<or> tp = Fin 2
                 \<or> jle (Fin (of_nat (length ps))) tp \<or> tp = NaN \<or> tp = PInf \<or> tp = NInf")
    case True
    then show ?thesis
      by (auto simp: lttbIndicesForDataPoints_def lttbIndicesForInterleavedXY_def Let_def n)
  next
    case False
    then obtain t where t: "tp = Fin t" by (cases tp) auto
    with False have g: "0 < t" "t \<noteq> 1" "t \<noteq> 2" "t < of_nat (length ps)" "length ps \<noteq> 0" by auto
    define lastIndex where "lastIndex = int (length ps) - 1"
    define bucketSize :: rat where "bucketSize = bucketSizeOf (length ps) t"
    define indices where "indices = storeAt ((replicate (nat \<lfloor>t\<rfloor>) 0)[0 := 0]) (t - 1) lastIndex"
    have li: "0 \<le> lastIndex" "lastIndex < int (length ps)" using g(5) by (simp_all add: lastIndex_def)
    note rd = samePoints_read[OF same li]
    have loop: "bucketLoopDP ps t bucketSize lastIndex lX lY 0 (0, 1, indices) =
          Inr (bucketLoopXY d t bucketSize lastIndex lX lY 0 (0, 1, indices))" for lX lY
    proof (cases "2 < t")
      case True
      then have "(2::rat) < of_nat (length ps)" using g(4) by linarith
      then have "(of_nat 2 :: rat) < of_nat (length ps)" by simp
      then have "2 < length ps" by (simp only: of_nat_less_iff)
      then have l2: "2 \<le> lastIndex" by (simp add: lastIndex_def)
      have "0 \<le> bucketSize" unfolding bucketSize_def using bucketSizeOf_nonneg[OF True g(4)] by simp
      from bucketLoop_same[OF same this l2 li(2)] g(5) show ?thesis by simp
    next
      case False
      then have "\<not> of_nat 0 < t - 2" by simp
      then show ?thesis by (simp add: bucketLoopDP.simps bucketLoopXY.simps)
    qed
    have "lttbIndicesForDataPoints ps tp =
            bucketLoopDP ps t bucketSize lastIndex (pointX (ps ! nat lastIndex)) (pointY (ps ! nat lastIndex)) 0 (0, 1, indices)"
      using False t g rd(1)
      by (simp add: lttbIndicesForDataPoints_def Let_def lastIndex_def bucketSize_def indices_def)
    moreover have "lttbIndicesForInterleavedXY d tp =
            bucketLoopXY d t bucketSize lastIndex (xAt d lastIndex) (yAt d lastIndex) 0 (0, 1, indices)"
      using False t g
      by (simp add: lttbIndicesForInterleavedXY_def Let_def n lastIndex_def bucketSize_def indices_def xAt_def yAt_def)
    ultimately show ?thesis using loop rd by simp
  qed
qed

section \<open>The sampler as a selection by indices\<close>


lemma slotPairs_interleave: "slotPairs (interleave ps) = map (\<lambda>p. (pointX p, pointY p)) ps"
  by (induction ps) auto

lemma samePoints_interleave: "samePoints (interleave ps) ps"
  by (simp add: samePoints_def slotPairs_interleave)


lemma gatherPoints_map:
  "\<forall>i \<in> set idxs. 0 \<le> i \<and> i < int (length ps) \<Longrightarrow>
   gatherPoints ps idxs = Inr (map (\<lambda>i. ps ! nat i) idxs)"
  by (induction idxs) auto

lemma slotPairs_gatherXY:
  "slotPairs (gatherXY d idxs) = map (\<lambda>i. (xAt d i, yAt d i)) idxs"
  by (induction idxs) (auto simp: xAt_def yAt_def)

lemma pointsOf_gatherXY:
  assumes "\<forall>i \<in> set idxs. 0 \<le> i \<and> i < int (length d div 2)"
  shows "slotPairs (gatherXY d idxs) = map (\<lambda>i. slotPairs d ! nat i) idxs"
  using assms by (simp add: slotPairs_gatherXY xyAt_slotPairs)


lemma lttbIndicesXY_in_range:
  "\<forall>x \<in> set (lttbIndicesForInterleavedXY data (jfloor tp)). 0 \<le> x \<and> x < int (length data div 2)"
proof (cases tp)
  case (Fin q)
  define k where "k = \<lfloor>q\<rfloor>"
  have tp: "jfloor tp = Fin (of_int k)" using Fin k_def by simp
  consider (empty) "k \<le> 0 \<or> length data div 2 = 0"
    | (all) "0 < length data div 2" "0 < k" "int (length data div 2) \<le> k"
    | (reduced) "1 \<le> k" "k < int (length data div 2)" by linarith
  then show ?thesis
  proof cases
    case empty
    then show ?thesis unfolding tp using lttbIndicesXY_empty[of k data] by simp
  next
    case all
    then show ?thesis unfolding tp using lttbIndicesXY_all[OF all] by auto
  next
    case reduced
    show ?thesis unfolding tp by (rule lttbIndicesXY_bounds[OF reduced])
  qed
next
  case PInf
  then show ?thesis by (auto simp: lttbIndicesForInterleavedXY_def Let_def)
next
  case NInf
  then show ?thesis by (simp add: lttbIndicesForInterleavedXY_def Let_def)
next
  case NaN
  then show ?thesis by (simp add: lttbIndicesForInterleavedXY_def Let_def)
qed

lemma lttbIndicesXY_passthrough:
  assumes "\<not> (jle (jfloor tp) (Fin 0) \<or> length data div 2 = 0)"
    and "jle (Fin (of_nat (length data div 2))) (jfloor tp)"
  shows "lttbIndicesForInterleavedXY data (jfloor tp) = map int [0..<length data div 2]"
proof (cases tp)
  case (Fin q)
  have "(of_nat (length data div 2) :: rat) = of_int (int (length data div 2))" by simp
  then have "int (length data div 2) \<le> \<lfloor>q\<rfloor>"
    using assms(2) Fin by (simp only: jfloor.simps jle.simps of_int_le_iff)
  moreover have "0 < \<lfloor>q\<rfloor>" "0 < length data div 2"
    using assms(1) Fin by (auto simp del: floor_le_zero zero_less_floor simp: not_le)
  ultimately show ?thesis using lttbIndicesXY_all[of data "\<lfloor>q\<rfloor>"] Fin by simp
next
  case PInf
  with assms show ?thesis by (auto simp: lttbIndicesForInterleavedXY_def Let_def)
next
  case NInf
  with assms show ?thesis by simp
next
  case NaN
  with assms show ?thesis by simp
qed

lemma lttbIndicesXY_nothing:
  assumes "jle (jfloor tp) (Fin 0) \<or> length data div 2 = 0"
  shows "lttbIndicesForInterleavedXY data (jfloor tp) = []"
  using assms by (auto simp: lttbIndicesForInterleavedXY_def Let_def)

lemma map_nth_int: "map (\<lambda>i. xs ! nat i) (map int [0..<length xs]) = xs"
  by (simp add: comp_def map_nth)

lemma lttbSample_by_indices:
  "\<exists>out. lttbSample data tp = Inr out \<and>
         pointsOf out = map (\<lambda>i. pointsOf data ! nat i) (lttbIndicesForInterleavedXY (bufferOf data) (jfloor tp))"
proof (cases data)
  case (Float32Array d)
  let ?n = "length d div 2"
  show ?thesis
  proof (cases "jle (jfloor tp) (Fin 0) \<or> ?n = 0")
    case True
    then show ?thesis using Float32Array lttbIndicesXY_nothing[OF True]
      by (auto simp: lttbSample_def Let_def)
  next
    case False
    show ?thesis
    proof (cases "jle (Fin (of_nat ?n)) (jfloor tp)")
      case True
      have "slotPairs d = map (\<lambda>i. slotPairs d ! nat i) (map int [0..<length (slotPairs d)])"
        by (simp only: map_nth_int)
      with False True Float32Array lttbIndicesXY_passthrough[OF False True] show ?thesis
        by (simp add: lttbSample_def Let_def)
    next
      case notall: False
      have "slotPairs (gatherXY d (lttbIndicesForInterleavedXY d (jfloor tp))) =
              map (\<lambda>i. slotPairs d ! nat i) (lttbIndicesForInterleavedXY d (jfloor tp))"
        by (rule pointsOf_gatherXY[OF lttbIndicesXY_in_range])
      with False notall Float32Array show ?thesis
        by (simp add: lttbSample_def Let_def)
    qed
  qed
next
  case (PointArray ps)
  let ?n = "length ps"
  let ?d = "interleave ps"
  have n: "length ?d div 2 = ?n" by (rule samePoints_length[OF samePoints_interleave])
  have idx: "lttbIndicesForDataPoints ps (jfloor tp) = Inr (lttbIndicesForInterleavedXY ?d (jfloor tp))"
    by (rule lttbIndices_same[OF samePoints_interleave])
  show ?thesis
  proof (cases "jle (jfloor tp) (Fin 0) \<or> ?n = 0")
    case True
    then have "lttbIndicesForInterleavedXY ?d (jfloor tp) = []"
      using lttbIndicesXY_nothing[of tp ?d] n by simp
    with True PointArray show ?thesis
      by (auto simp: lttbSample_def Let_def)
  next
    case False
    show ?thesis
    proof (cases "jle (Fin (of_nat ?n)) (jfloor tp)")
      case True
      have "lttbIndicesForInterleavedXY ?d (jfloor tp) = map int [0..<?n]"
        using lttbIndicesXY_passthrough[of tp ?d] False True n by simp
      moreover have "map (\<lambda>p. (pointX p, pointY p)) ps =
          map (\<lambda>i. map (\<lambda>p. (pointX p, pointY p)) ps ! nat i) (map int [0..<length (map (\<lambda>p. (pointX p, pointY p)) ps)])"
        by (simp only: map_nth_int)
      ultimately show ?thesis using False True PointArray
        by (simp add: lttbSample_def Let_def)
    next
      case notall: False
      have rng: "\<forall>i \<in> set (lttbIndicesForInterleavedXY ?d (jfloor tp)). 0 \<le> i \<and> i < int ?n"
        using lttbIndicesXY_in_range[of ?d tp] n by simp
      then have "gatherPoints ps (lttbIndicesForInterleavedXY ?d (jfloor tp)) =
              Inr (map (\<lambda>i. ps ! nat i) (lttbIndicesForInterleavedXY ?d (jfloor tp)))"
        by (rule gatherPoints_map)
      moreover have "map (\<lambda>p. (pointX p, pointY p)) (map (\<lambda>i. ps ! nat i) (lttbIndicesForInterleavedXY ?d (jfloor tp))) =
          map (\<lambda>i. map (\<lambda>p. (pointX p, pointY p)) ps ! nat i) (lttbIndicesForInterleavedXY ?d (jfloor tp))"
        using rng by (auto simp: comp_def)
      ultimately show ?thesis using False notall PointArray idx
        by (simp add: lttbSample_def Let_def)
    qed
  qed
qed



lemma jle_floor_zero: "jle (jfloor (Fin q)) (Fin 0) \<longleftrightarrow> \<lfloor>q\<rfloor> \<le> 0"
  by simp

lemma jle_nat_floor: "jle (Fin (of_nat n)) (jfloor (Fin q)) \<longleftrightarrow> int n \<le> \<lfloor>q\<rfloor>"
proof -
  have "(of_nat n :: rat) = of_int (int n)" by simp
  then show ?thesis by (simp only: jfloor.simps jle.simps of_int_le_iff)
qed

section \<open>The claims about lttbSample\<close>







section \<open>The selected indices increase\<close>







text \<open>
  C4. For every non-empty input with \<open>N\<close> points and every \<open>targetCount\<close> with
  \<open>N \<le> floor(targetCount)\<close>, the sampler returns its input: the same values in the same
  order (the model returns the argument itself, as the code returns the same array).
\<close>

theorem lttbSample_identity:
  assumes "0 < length (pointsOf data)" and "int (length (pointsOf data)) \<le> \<lfloor>targetCount\<rfloor>"
  shows "lttbSample data (Fin targetCount) = Inr data"
proof (cases data)
  case (Float32Array d)
  with assms have "0 < length d div 2" "int (length d div 2) \<le> \<lfloor>targetCount\<rfloor>"
    by simp_all
  then have "\<not> \<lfloor>targetCount\<rfloor> \<le> 0" "length d div 2 \<noteq> 0" "int (length d div 2) \<le> \<lfloor>targetCount\<rfloor>"
    by linarith+
  then show ?thesis
    unfolding lttbSample_def Let_def Float32Array
    by (simp only: jle_floor_zero jle_nat_floor SampleData.case if_False if_True simp_thms)
next
  case (PointArray ps)
  with assms have "0 < length ps" "int (length ps) \<le> \<lfloor>targetCount\<rfloor>"
    by simp_all
  then have "\<not> \<lfloor>targetCount\<rfloor> \<le> 0" "length ps \<noteq> 0" "int (length ps) \<le> \<lfloor>targetCount\<rfloor>"
    by linarith+
  then show ?thesis
    unfolding lttbSample_def Let_def PointArray
    by (simp only: jle_floor_zero jle_nat_floor SampleData.case if_False if_True simp_thms)
qed

text \<open>Two points and the target count 2.5.\<close>

theorem lttbSample_identity_witness:
  "0 < length (pointsOf (PointArray [Tuple (Fin 1) (Fin 2), XY (Fin 3) (Fin 4)])) \<and>
   int (length (pointsOf (PointArray [Tuple (Fin 1) (Fin 2), XY (Fin 3) (Fin 4)]))) \<le> \<lfloor>5 / 2 :: rat\<rfloor> \<and>
   lttbSample (PointArray [Tuple (Fin 1) (Fin 2), XY (Fin 3) (Fin 4)]) (Fin (5 / 2))
     = Inr (PointArray [Tuple (Fin 1) (Fin 2), XY (Fin 3) (Fin 4)])"
proof -
  have h1: "0 < length (pointsOf (PointArray [Tuple (Fin 1) (Fin 2), XY (Fin 3) (Fin 4)]))"
    by simp
  have h2: "int (length (pointsOf (PointArray [Tuple (Fin 1) (Fin 2), XY (Fin 3) (Fin 4)]))) \<le> \<lfloor>5 / 2 :: rat\<rfloor>"
    by simp
  from h1 h2 lttbSample_identity[OF h1 h2] show ?thesis by blast
qed



section \<open>The claims about the bucketed path\<close>

lemma bucketArea_absArea2:
  assumes "nextAverageXY data bucketSize lastIndex (xAt data lastIndex) (yAt data lastIndex) bucket = (avgX, avgY)"
  shows "bucketArea data bucketSize lastIndex bucket a j =
           absArea2 (xAt data a) (yAt data a) avgX avgY (xAt data j) (yAt data j)"
  using assms by (simp add: bucketArea_def absArea2_jabs area2_def Let_def)

lemma selectedXY_bucketArea:
  fixes data :: "jsnum list"
  assumes rng: "currentRange bucketSize lastIndex bucket = (rs, re)" and ne: "rs < re"
    and w: "w = selectedXY data bucketSize lastIndex (xAt data lastIndex) (yAt data lastIndex) bucket a"
  shows "rs \<le> w \<and> w < re"
    and "\<forall>j. rs \<le> j \<and> j < re \<longrightarrow>
           \<not> jgt (bucketArea data bucketSize lastIndex bucket a j) (bucketArea data bucketSize lastIndex bucket a w)"
    and "\<forall>j. rs \<le> j \<and> j < w \<longrightarrow>
           \<not> jge (bucketArea data bucketSize lastIndex bucket a j) (bucketArea data bucketSize lastIndex bucket a w)"
    and "w = rs \<or> bucketArea data bucketSize lastIndex bucket a w \<noteq> NaN"
    and "bucketArea data bucketSize lastIndex bucket a w = NaN \<longrightarrow>
           (\<forall>j. rs \<le> j \<and> j < re \<longrightarrow> bucketArea data bucketSize lastIndex bucket a j = NaN)"
proof -
  obtain avgX avgY where avg:
    "nextAverageXY data bucketSize lastIndex (xAt data lastIndex) (yAt data lastIndex) bucket = (avgX, avgY)"
    by (cases "nextAverageXY data bucketSize lastIndex (xAt data lastIndex) (yAt data lastIndex) bucket") auto
  note B = bucketArea_absArea2[OF avg]
  note P = selectedXY_props[OF rng ne avg refl w]
  from P(1) show "rs \<le> w \<and> w < re" .
  from P(2) show "\<forall>j. rs \<le> j \<and> j < re \<longrightarrow>
           \<not> jgt (bucketArea data bucketSize lastIndex bucket a j) (bucketArea data bucketSize lastIndex bucket a w)"
    by (simp add: B jgt_def)
  from P(3) show "\<forall>j. rs \<le> j \<and> j < w \<longrightarrow>
           \<not> jge (bucketArea data bucketSize lastIndex bucket a j) (bucketArea data bucketSize lastIndex bucket a w)"
    by (simp add: B jge_def)
  from P(4) show "w = rs \<or> bucketArea data bucketSize lastIndex bucket a w \<noteq> NaN"
    by (simp add: B)
  from P(5) show "bucketArea data bucketSize lastIndex bucket a w = NaN \<longrightarrow>
           (\<forall>j. rs \<le> j \<and> j < re \<longrightarrow> bucketArea data bucketSize lastIndex bucket a j = NaN)"
    by (simp add: B)
qed


section \<open>The lookahead point and the winner of a bucket\<close>

lemma nextAverageXY_lookahead:
  "nextAverageXY data (bucketSizeOf (length data div 2) (of_int k)) (int (length data div 2) - 1)
      (xAt data (int (length data div 2) - 1)) (yAt data (int (length data div 2) - 1)) b
     = lookaheadPoint data k b"
  by (simp add: nextAverageXY_mean nextRange_def lookaheadPoint_def bucketSizeOf_def bucketFloor_def Let_def)







text \<open>
  C7. In the bucketed path (\<open>3 \<le> k < N\<close> for the floored target count \<open>k\<close>), for every
  bucket \<open>b\<close> the average point that the pass computes is the lookahead point of the
  spec: the mean of the coordinates (the sum in index order divided by the count, in
  the arithmetic of the program) over the indices from \<open>\<lfloor>bucketSize * (b + 1)\<rfloor> + 1\<close> up
  to, not including, \<open>min(\<lfloor>bucketSize * (b + 2)\<rfloor> + 1, N - 1)\<close>, and the point at index
  \<open>N - 1\<close> when that range is empty. It is the point that the area metric uses: the index
  stored for the bucket is the result of the candidate loop run with the anchor
  \<open>res ! b\<close> and this point.
\<close>

theorem lookahead_average:
  fixes data :: "jsnum list" and k :: int
  assumes "3 \<le> k" and "k < int (length data div 2)" and "int b < k - 2"
  defines "lastIndex \<equiv> int (length data div 2) - 1"
  defines "bucketSize \<equiv> bucketSizeOf (length data div 2) (of_int k)"
  defines "res \<equiv> lttbIndicesForInterleavedXY data (Fin (of_int k))"
  shows "nextAverageXY data bucketSize lastIndex (xAt data lastIndex) (yAt data lastIndex) b
           = lookaheadPoint data k b
    \<and> res ! (b + 1) =
        snd (maxLoopXY data (xAt data (res ! b)) (yAt data (res ! b))
               (fst (lookaheadPoint data k b)) (snd (lookaheadPoint data k b))
               (fst (currentRange bucketSize lastIndex b)) (snd (currentRange bucketSize lastIndex b))
               (Fin (- 1), fst (currentRange bucketSize lastIndex b)))"
proof
  show avg: "nextAverageXY data bucketSize lastIndex (xAt data lastIndex) (yAt data lastIndex) b
           = lookaheadPoint data k b"
    unfolding bucketSize_def lastIndex_def by (rule nextAverageXY_lookahead)
  have w: "res ! (b + 1) = selectedXY data bucketSize lastIndex (xAt data lastIndex) (yAt data lastIndex) b (res ! b)"
    using bucketed_structure(4)[OF assms(1,2), folded bucketSize_def lastIndex_def res_def] assms(3)
    by blast
  have rng: "currentRange bucketSize lastIndex b =
      (fst (currentRange bucketSize lastIndex b), snd (currentRange bucketSize lastIndex b))"
    by simp
  have avg': "nextAverageXY data bucketSize lastIndex (xAt data lastIndex) (yAt data lastIndex) b
      = (fst (lookaheadPoint data k b), snd (lookaheadPoint data k b))"
    using avg by simp
  show "res ! (b + 1) =
        snd (maxLoopXY data (xAt data (res ! b)) (yAt data (res ! b))
               (fst (lookaheadPoint data k b)) (snd (lookaheadPoint data k b))
               (fst (currentRange bucketSize lastIndex b)) (snd (currentRange bucketSize lastIndex b))
               (Fin (- 1), fst (currentRange bucketSize lastIndex b)))"
    unfolding w by (rule selectedXY_maxLoop[OF rng avg'])
qed

text \<open>
  Ten points and the target count 4: for the first bucket the next range holds the
  indices 5 to 8, whose abscissas have the mean 13/2 and whose ordinates 0, 3, 9 and 1
  have the mean 13/4; for the second, the last, bucket the next range is empty and the
  lookahead point is the last point (9, 0). Seventeen points and the target count 13:
  the bucket size is the binary64 number nearest to 15/11, whose product with 11 rounds
  to a number below 15, so the next range of bucket 9 holds the index 14 alone and the
  lookahead point is the point (14, 0).
\<close>

theorem lookahead_average_witness:
  "(3::int) \<le> 4 \<and> (4::int) < int (length tenBuffer div 2) \<and> int 0 < (4::int) - 2 \<and> int 1 < (4::int) - 2 \<and>
   lookaheadPoint tenBuffer 4 0 = (Fin (13 / 2), Fin (13 / 4)) \<and>
   nextAverageXY tenBuffer (bucketSizeOf (length tenBuffer div 2) (of_int 4)) (int (length tenBuffer div 2) - 1)
       (xAt tenBuffer (int (length tenBuffer div 2) - 1)) (yAt tenBuffer (int (length tenBuffer div 2) - 1)) 0
     = (Fin (13 / 2), Fin (13 / 4)) \<and>
   lookaheadPoint tenBuffer 4 1 = (Fin 9, Fin 0) \<and>
   nextAverageXY tenBuffer (bucketSizeOf (length tenBuffer div 2) (of_int 4)) (int (length tenBuffer div 2) - 1)
       (xAt tenBuffer (int (length tenBuffer div 2) - 1)) (yAt tenBuffer (int (length tenBuffer div 2) - 1)) 1
     = (Fin 9, Fin 0) \<and>
   (3::int) \<le> 13 \<and> (13::int) < int (length seventeenBuffer div 2) \<and> int 9 < (13::int) - 2 \<and>
   lookaheadPoint seventeenBuffer 13 9 = (Fin 14, Fin 0) \<and>
   nextAverageXY seventeenBuffer (bucketSizeOf (length seventeenBuffer div 2) (of_int 13))
       (int (length seventeenBuffer div 2) - 1)
       (xAt seventeenBuffer (int (length seventeenBuffer div 2) - 1))
       (yAt seventeenBuffer (int (length seventeenBuffer div 2) - 1)) 9
     = (Fin 14, Fin 0)"
proof -
  have h: "(3::int) \<le> 4" "(4::int) < int (length tenBuffer div 2)" "int 0 < (4::int) - 2"
    by (simp_all add: tenBuffer_def)
  have h1: "int 1 < (4::int) - 2" by simp
  have g: "(3::int) \<le> 13" "(13::int) < int (length seventeenBuffer div 2)" "int 9 < (13::int) - 2"
    by (simp_all add: seventeenBuffer_def)
  have v: "lookaheadPoint tenBuffer 4 0 = (Fin (13 / 2), Fin (13 / 4))"
    "lookaheadPoint tenBuffer 4 1 = (Fin 9, Fin 0)"
    "lookaheadPoint seventeenBuffer 13 9 = (Fin 14, Fin 0)"
    by code_simp+
  from lookahead_average[OF h] lookahead_average[OF h(1,2) h1] lookahead_average[OF g] v h h1 g
  show ?thesis by simp
qed



lemma bucketArea_cases:
  "bucketArea data bucketSize lastIndex bucket a j = NaN
   \<or> bucketArea data bucketSize lastIndex bucket a j = PInf
   \<or> isFinite (bucketArea data bucketSize lastIndex bucket a j)"
proof -
  obtain avgX avgY where
    "nextAverageXY data bucketSize lastIndex (xAt data lastIndex) (yAt data lastIndex) bucket = (avgX, avgY)"
    by (cases "nextAverageXY data bucketSize lastIndex (xAt data lastIndex) (yAt data lastIndex) bucket") auto
  then have "bucketArea data bucketSize lastIndex bucket a j =
      jabs (area2 (xAt data a) (yAt data a) avgX avgY (xAt data j) (yAt data j))"
    by (simp add: bucketArea_absArea2 absArea2_jabs)
  then show ?thesis
    by (cases "area2 (xAt data a) (yAt data a) avgX avgY (xAt data j) (yAt data j)") auto
qed

text \<open>
  C9, as amended. When the \<open>|area2|\<close> of every candidate of a bucket is \<open>NaN\<close>, the running
  maximum is never exceeded, so the loop ends in its initial state and the start index
  of the range is selected. An infinite area does exceed the initial maximum \<open>-1\<close>: when
  the area of every candidate is non-finite, the first candidate whose area is not
  \<open>NaN\<close> is selected.
\<close>

theorem nan_bucket_keeps_start:
  fixes data :: "jsnum list"
  defines "avg \<equiv> \<lambda>bucketSize lastIndex bucket.
     nextAverageXY data bucketSize lastIndex (xAt data lastIndex) (yAt data lastIndex) bucket"
  shows
  "((\<forall>j. fst (currentRange bucketSize lastIndex bucket) \<le> j \<and> j < snd (currentRange bucketSize lastIndex bucket)
        \<longrightarrow> isNaN (bucketArea data bucketSize lastIndex bucket a j)) \<longrightarrow>
      maxLoopXY data (xAt data a) (yAt data a)
        (fst (avg bucketSize lastIndex bucket)) (snd (avg bucketSize lastIndex bucket))
        (fst (currentRange bucketSize lastIndex bucket)) (snd (currentRange bucketSize lastIndex bucket))
        (Fin (- 1), fst (currentRange bucketSize lastIndex bucket))
        = (Fin (- 1), fst (currentRange bucketSize lastIndex bucket)) \<and>
      selectedXY data bucketSize lastIndex (xAt data lastIndex) (yAt data lastIndex) bucket a
        = fst (currentRange bucketSize lastIndex bucket))
   \<and> ((\<forall>j. fst (currentRange bucketSize lastIndex bucket) \<le> j \<and> j < snd (currentRange bucketSize lastIndex bucket)
        \<longrightarrow> \<not> isFinite (bucketArea data bucketSize lastIndex bucket a j))
      \<and> fst (currentRange bucketSize lastIndex bucket) \<le> j0 \<and> j0 < snd (currentRange bucketSize lastIndex bucket)
      \<and> \<not> isNaN (bucketArea data bucketSize lastIndex bucket a j0)
      \<and> (\<forall>j. fst (currentRange bucketSize lastIndex bucket) \<le> j \<and> j < j0
        \<longrightarrow> isNaN (bucketArea data bucketSize lastIndex bucket a j)) \<longrightarrow>
      selectedXY data bucketSize lastIndex (xAt data lastIndex) (yAt data lastIndex) bucket a = j0)"
proof (intro conjI impI)
  obtain rs re where rng: "currentRange bucketSize lastIndex bucket = (rs, re)"
    by (cases "currentRange bucketSize lastIndex bucket") auto
  obtain avgX avgY where avg': "nextAverageXY data bucketSize lastIndex (xAt data lastIndex) (yAt data lastIndex) bucket = (avgX, avgY)"
    by (cases "nextAverageXY data bucketSize lastIndex (xAt data lastIndex) (yAt data lastIndex) bucket") auto
  note B = bucketArea_absArea2[OF avg']
  note sel = selectedXY_maxLoop[OF rng avg', of a]
  {
    assume nan: "\<forall>j. fst (currentRange bucketSize lastIndex bucket) \<le> j \<and> j < snd (currentRange bucketSize lastIndex bucket)
        \<longrightarrow> isNaN (bucketArea data bucketSize lastIndex bucket a j)"
    obtain M I where run: "maxLoopXY data (xAt data a) (yAt data a) avgX avgY rs re (Fin (- 1), rs) = (M, I)"
      by (cases "maxLoopXY data (xAt data a) (yAt data a) avgX avgY rs re (Fin (- 1), rs)") auto
    from maxLoopXY_cases[OF run] have keep: "M = Fin (- 1) \<and> I = rs"
    proof
      assume "M = Fin (- 1) \<and> I = rs \<and>
        (\<forall>j. rs \<le> j \<and> j < re \<longrightarrow> \<not> jlt (Fin (- 1)) (absArea2 (xAt data a) (yAt data a) avgX avgY (xAt data j) (yAt data j)))"
      then show ?thesis by simp
    next
      assume mv: "rs \<le> I \<and> I < re \<and> M = absArea2 (xAt data a) (yAt data a) avgX avgY (xAt data I) (yAt data I) \<and>
        jlt (Fin (- 1)) M \<and>
        (\<forall>j. rs \<le> j \<and> j < re \<longrightarrow> \<not> jlt M (absArea2 (xAt data a) (yAt data a) avgX avgY (xAt data j) (yAt data j))) \<and>
        (\<forall>j. rs \<le> j \<and> j < I \<longrightarrow> \<not> jle M (absArea2 (xAt data a) (yAt data a) avgX avgY (xAt data j) (yAt data j)))"
      then have "M = NaN" using nan rng by (simp add: B isNaN_def)
      with mv show ?thesis by simp
    qed
    with run show "maxLoopXY data (xAt data a) (yAt data a)
        (fst (avg bucketSize lastIndex bucket)) (snd (avg bucketSize lastIndex bucket))
        (fst (currentRange bucketSize lastIndex bucket)) (snd (currentRange bucketSize lastIndex bucket))
        (Fin (- 1), fst (currentRange bucketSize lastIndex bucket))
        = (Fin (- 1), fst (currentRange bucketSize lastIndex bucket))"
      unfolding avg_def by (simp add: rng avg')
    from keep run sel show "selectedXY data bucketSize lastIndex (xAt data lastIndex) (yAt data lastIndex) bucket a
        = fst (currentRange bucketSize lastIndex bucket)"
      by (simp add: rng)
  }
  assume h: "(\<forall>j. fst (currentRange bucketSize lastIndex bucket) \<le> j \<and> j < snd (currentRange bucketSize lastIndex bucket)
        \<longrightarrow> \<not> isFinite (bucketArea data bucketSize lastIndex bucket a j))
      \<and> fst (currentRange bucketSize lastIndex bucket) \<le> j0 \<and> j0 < snd (currentRange bucketSize lastIndex bucket)
      \<and> \<not> isNaN (bucketArea data bucketSize lastIndex bucket a j0)
      \<and> (\<forall>j. fst (currentRange bucketSize lastIndex bucket) \<le> j \<and> j < j0
        \<longrightarrow> isNaN (bucketArea data bucketSize lastIndex bucket a j))"
  let ?A = "bucketArea data bucketSize lastIndex bucket a"
  define w where "w = selectedXY data bucketSize lastIndex (xAt data lastIndex) (yAt data lastIndex) bucket a"
  from h rng have j0: "rs \<le> j0" "j0 < re" "?A j0 \<noteq> NaN" by (simp_all add: isNaN_def)
  then have ne: "rs < re" by linarith
  note P = selectedXY_bucketArea[OF rng ne w_def]
  have inf: "?A j = NaN \<or> ?A j = PInf" if "rs \<le> j" "j < re" for j
    using h rng that bucketArea_cases[of data bucketSize lastIndex bucket a j] by auto
  have before: "?A j = NaN" if "rs \<le> j" "j < j0" for j
    using h rng that by (simp add: isNaN_def)
  have wnan: "?A w \<noteq> NaN" using P(5) j0 by blast
  have "\<not> w < j0" using before[of w] P(1) wnan by blast
  moreover have "\<not> j0 < w"
  proof
    assume "j0 < w"
    with P(3) j0(1) have "\<not> jge (?A j0) (?A w)" by blast
    moreover have "?A j0 = PInf" using inf[OF j0(1,2)] j0(3) by blast
    moreover have "?A w = PInf" using inf[of w] P(1) wnan by blast
    ultimately show False by (simp add: jge_def)
  qed
  ultimately show "selectedXY data bucketSize lastIndex (xAt data lastIndex) (yAt data lastIndex) bucket a = j0"
    unfolding w_def[symmetric] by linarith
qed

text \<open>
  Five points whose candidates 1 to 3 all have the area \<open>NaN\<close>: the start index 1 is
  selected. With the ordinates \<open>NaN\<close>, \<open>Infinity\<close>, \<open>NaN\<close> the candidate 2 is the first
  whose area is not \<open>NaN\<close>, and it is selected.
\<close>

theorem nan_bucket_keeps_start_witness:
  "currentRange 3 4 0 = (1, 4) \<and>
   isNaN (bucketArea allNaNBuffer 3 4 0 0 1) \<and> isNaN (bucketArea allNaNBuffer 3 4 0 0 2) \<and>
   isNaN (bucketArea allNaNBuffer 3 4 0 0 3) \<and>
   selectedXY allNaNBuffer 3 4 (xAt allNaNBuffer 4) (yAt allNaNBuffer 4) 0 0 = 1 \<and>
   \<not> isFinite (bucketArea nonFiniteBuffer 3 4 0 0 1) \<and> \<not> isFinite (bucketArea nonFiniteBuffer 3 4 0 0 2) \<and>
   \<not> isFinite (bucketArea nonFiniteBuffer 3 4 0 0 3) \<and>
   \<not> isNaN (bucketArea nonFiniteBuffer 3 4 0 0 2) \<and> isNaN (bucketArea nonFiniteBuffer 3 4 0 0 1) \<and>
   selectedXY nonFiniteBuffer 3 4 (xAt nonFiniteBuffer 4) (yAt nonFiniteBuffer 4) 0 0 = 2"
proof -
  have r: "currentRange 3 4 0 = (1, 4)" by code_simp
  have three: "j = 1 \<or> j = 2 \<or> j = 3" if "1 \<le> j \<and> j < 4" for j :: int
    using that by linarith
  have n: "isNaN (bucketArea allNaNBuffer 3 4 0 0 1)" "isNaN (bucketArea allNaNBuffer 3 4 0 0 2)"
    "isNaN (bucketArea allNaNBuffer 3 4 0 0 3)"
    by code_simp+
  have f: "\<not> isFinite (bucketArea nonFiniteBuffer 3 4 0 0 1)" "\<not> isFinite (bucketArea nonFiniteBuffer 3 4 0 0 2)"
    "\<not> isFinite (bucketArea nonFiniteBuffer 3 4 0 0 3)"
    "\<not> isNaN (bucketArea nonFiniteBuffer 3 4 0 0 2)" "isNaN (bucketArea nonFiniteBuffer 3 4 0 0 1)"
    by code_simp+
  have h1: "\<forall>j. fst (currentRange 3 4 0) \<le> j \<and> j < snd (currentRange 3 4 0)
        \<longrightarrow> isNaN (bucketArea allNaNBuffer 3 4 0 0 j)"
    unfolding r using three n by auto
  have h2: "(\<forall>j. fst (currentRange 3 4 0) \<le> j \<and> j < snd (currentRange 3 4 0)
        \<longrightarrow> \<not> isFinite (bucketArea nonFiniteBuffer 3 4 0 0 j))
      \<and> fst (currentRange 3 4 0) \<le> 2 \<and> 2 < snd (currentRange 3 4 0)
      \<and> \<not> isNaN (bucketArea nonFiniteBuffer 3 4 0 0 2)
      \<and> (\<forall>j. fst (currentRange 3 4 0) \<le> j \<and> j < 2
        \<longrightarrow> isNaN (bucketArea nonFiniteBuffer 3 4 0 0 j))"
  proof -
    have one: "j = 1" if "1 \<le> j \<and> j < 2" for j :: int using that by linarith
    have "\<forall>j. (1::int) \<le> j \<and> j < 4 \<longrightarrow> \<not> isFinite (bucketArea nonFiniteBuffer 3 4 0 0 j)"
      using three f by blast
    moreover have "\<forall>j. (1::int) \<le> j \<and> j < 2 \<longrightarrow> isNaN (bucketArea nonFiniteBuffer 3 4 0 0 j)"
      using one f by blast
    ultimately show ?thesis unfolding r using f by simp
  qed
  from nan_bucket_keeps_start[where data = allNaNBuffer and bucketSize = 3 and lastIndex = 4
      and bucket = 0 and a = 0] h1
  have a: "selectedXY allNaNBuffer 3 4 (xAt allNaNBuffer 4) (yAt allNaNBuffer 4) 0 0 = fst (currentRange 3 4 0)"
    by blast
  from nan_bucket_keeps_start[where data = nonFiniteBuffer and bucketSize = 3 and lastIndex = 4
      and bucket = 0 and a = 0 and ?j0.0 = 2] h2
  have b: "selectedXY nonFiniteBuffer 3 4 (xAt nonFiniteBuffer 4) (yAt nonFiniteBuffer 4) 0 0 = 2"
    by blast
  from a have a': "selectedXY allNaNBuffer 3 4 (xAt allNaNBuffer 4) (yAt allNaNBuffer 4) 0 0 = 1"
    unfolding r by simp
  from r n f a' b show ?thesis by blast
qed

text \<open>
  C9 as stated fails on five points with the ordinates 0, \<open>NaN\<close>, \<open>Infinity\<close>, \<open>NaN\<close>, 0
  and the target count 3. The only bucket has the candidates 1 to 3 and the area of
  each is non-finite, but the infinite area of candidate 2 exceeds the running maximum
  \<open>-1\<close>: the index 2 is selected, not the start index 1 of the range.
\<close>

theorem nonfinite_bucket_counterexample:
  "currentRange 3 4 0 = (1, 4) \<and>
   \<not> isFinite (bucketArea nonFiniteBuffer 3 4 0 0 1) \<and>
   \<not> isFinite (bucketArea nonFiniteBuffer 3 4 0 0 2) \<and>
   \<not> isFinite (bucketArea nonFiniteBuffer 3 4 0 0 3) \<and>
   jgt (bucketArea nonFiniteBuffer 3 4 0 0 2) (Fin (- 1)) \<and>
   selectedXY nonFiniteBuffer 3 4 (xAt nonFiniteBuffer 4) (yAt nonFiniteBuffer 4) 0 0 = 2 \<and>
   selectedXY nonFiniteBuffer 3 4 (xAt nonFiniteBuffer 4) (yAt nonFiniteBuffer 4) 0 0 \<noteq> fst (currentRange 3 4 0) \<and>
   lttbIndicesForInterleavedXY nonFiniteBuffer (Fin 3) = [0, 2, 4] \<and>
   lttbSample (Float32Array nonFiniteBuffer) (Fin 3)
     = Inr (Float32Array [Fin 0, Fin 0, Fin 2, PInf, Fin 4, Fin 0])"
  by code_simp

section \<open>The encodings\<close>

text \<open>
  C10. When an interleaved buffer and a point array hold the same points, both index
  functions return the same indices for every target count, and the point array never
  raises; the indices do not depend on whether an element is a tuple or a record. The
  outputs of the sampler for the two encodings hold the same points.
\<close>

theorem encodings_agree:
  assumes "pointsOf (Float32Array d) = pointsOf (PointArray ps)"
    and "pointsOf (PointArray ps') = pointsOf (PointArray ps)"
  shows "lttbIndicesForDataPoints ps targetPoints = Inr (lttbIndicesForInterleavedXY d targetPoints)
     \<and> lttbIndicesForDataPoints ps' targetPoints = lttbIndicesForDataPoints ps targetPoints
     \<and> (\<exists>out1 out2. lttbSample (Float32Array d) targetPoints = Inr out1 \<and>
           lttbSample (PointArray ps) targetPoints = Inr out2 \<and> pointsOf out1 = pointsOf out2)"
proof -
  have s1: "samePoints d ps" using assms(1) by (simp add: samePoints_def)
  have s2: "samePoints d ps'" using assms by (simp add: samePoints_def)
  have a: "lttbIndicesForDataPoints ps targetPoints = Inr (lttbIndicesForInterleavedXY d targetPoints)"
    by (rule lttbIndices_same[OF s1])
  have b: "lttbIndicesForDataPoints ps' targetPoints = lttbIndicesForDataPoints ps targetPoints"
    using lttbIndices_same[OF s2, of targetPoints] a by simp
  have "Inr (lttbIndicesForInterleavedXY (interleave ps) (jfloor targetPoints)) =
        (Inr (lttbIndicesForInterleavedXY d (jfloor targetPoints)) :: failure + int list)"
    using lttbIndices_same[OF s1, of "jfloor targetPoints"]
      lttbIndices_same[OF samePoints_interleave, of ps "jfloor targetPoints"] by simp
  then have eq: "lttbIndicesForInterleavedXY (interleave ps) (jfloor targetPoints) =
        lttbIndicesForInterleavedXY d (jfloor targetPoints)" by simp
  obtain out1 where o1: "lttbSample (Float32Array d) targetPoints = Inr out1"
    "pointsOf out1 = map (\<lambda>i. pointsOf (Float32Array d) ! nat i)
        (lttbIndicesForInterleavedXY (bufferOf (Float32Array d)) (jfloor targetPoints))"
    using lttbSample_by_indices[of "Float32Array d" targetPoints] by blast
  obtain out2 where o2: "lttbSample (PointArray ps) targetPoints = Inr out2"
    "pointsOf out2 = map (\<lambda>i. pointsOf (PointArray ps) ! nat i)
        (lttbIndicesForInterleavedXY (bufferOf (PointArray ps)) (jfloor targetPoints))"
    using lttbSample_by_indices[of "PointArray ps" targetPoints] by blast
  have "pointsOf out1 = pointsOf out2" using o1(2) o2(2) eq assms(1) by simp
  with a b o1(1) o2(1) show ?thesis by blast
qed

text \<open>
  Ten points as a buffer, as an array that mixes tuples and records, and as an array of
  tuples only, with the target count 4.
\<close>

theorem encodings_agree_witness:
  "pointsOf (Float32Array tenBuffer) = pointsOf (PointArray tenPoints) \<and>
   pointsOf (PointArray (map (\<lambda>p. Tuple (pointX p) (pointY p)) tenPoints)) = pointsOf (PointArray tenPoints) \<and>
   lttbIndicesForInterleavedXY tenBuffer (Fin 4) = [0, 3, 7, 9] \<and>
   lttbIndicesForDataPoints tenPoints (Fin 4) = Inr [0, 3, 7, 9] \<and>
   lttbIndicesForDataPoints (map (\<lambda>p. Tuple (pointX p) (pointY p)) tenPoints) (Fin 4) = Inr [0, 3, 7, 9]"
proof -
  have h1: "pointsOf (Float32Array tenBuffer) = pointsOf (PointArray tenPoints)"
    by (simp add: tenBuffer_def tenPoints_def)
  have h2: "pointsOf (PointArray (map (\<lambda>p. Tuple (pointX p) (pointY p)) tenPoints)) = pointsOf (PointArray tenPoints)"
    by (simp add: tenPoints_def)
  have v: "lttbIndicesForInterleavedXY tenBuffer (Fin 4) = [0, 3, 7, 9]" by code_simp
  from encodings_agree[OF h1 h2, of "Fin 4"] v
  have "lttbIndicesForDataPoints tenPoints (Fin 4) = Inr [0, 3, 7, 9]"
    and "lttbIndicesForDataPoints (map (\<lambda>p. Tuple (pointX p) (pointY p)) tenPoints) (Fin 4) = Inr [0, 3, 7, 9]"
    by simp_all
  with h1 h2 v show ?thesis by blast
qed

end
